theory Spec2Isabelle
  imports Main "HOL-Library.Sublist" "HOL-Library.AList"
begin

section \<open>JavaScript strings\<close>

text \<open>
  A JavaScript string is a sequence of code units. The model uses \<^typ>\<open>string\<close>: each
  \<^typ>\<open>char\<close> is one code unit in the range 0..255 (ASCII and Latin-1 text). The
  predicates below follow ECMAScript on that range.
\<close>

text \<open>WhiteSpace and LineTerminator code units: what \<^verbatim>\<open>trim()\<close> strips and \<^verbatim>\<open>\s\<close> matches.\<close>

definition js_whitespace :: "char \<Rightarrow> bool" where
  "js_whitespace c =
     (c = CHR 0x09 \<or> c = CHR 0x0A \<or> c = CHR 0x0B \<or> c = CHR 0x0C \<or> c = CHR 0x0D \<or>
      c = CHR 0x20 \<or> c = CHR 0xA0)"

definition trim :: "string \<Rightarrow> string" where
  "trim s = rev (dropWhile js_whitespace (rev (dropWhile js_whitespace s)))"

definition startsWith :: "string \<Rightarrow> string \<Rightarrow> bool" where
  "startsWith s p = (take (length p) s = p)"

definition endsWith :: "string \<Rightarrow> string \<Rightarrow> bool" where
  "endsWith s p = (length p \<le> length s \<and> drop (length s - length p) s = p)"

text \<open>\<^verbatim>\<open>s.replace(pat, rep)\<close> with a string pattern: the first occurrence only.\<close>

fun replace_first :: "string \<Rightarrow> string \<Rightarrow> string \<Rightarrow> string" where
  "replace_first pat rep [] = (if pat = [] then rep else [])"
| "replace_first pat rep (c # cs) =
     (if startsWith (c # cs) pat then rep @ drop (length pat) (c # cs)
      else c # replace_first pat rep cs)"

definition upper_letters :: string where
  "upper_letters = ''ABCDEFGHIJKLMNOPQRSTUVWXYZ'' @
     [CHR 0xC0, CHR 0xC1, CHR 0xC2, CHR 0xC3, CHR 0xC4, CHR 0xC5, CHR 0xC6, CHR 0xC7,
      CHR 0xC8, CHR 0xC9, CHR 0xCA, CHR 0xCB, CHR 0xCC, CHR 0xCD, CHR 0xCE, CHR 0xCF,
      CHR 0xD0, CHR 0xD1, CHR 0xD2, CHR 0xD3, CHR 0xD4, CHR 0xD5, CHR 0xD6,
      CHR 0xD8, CHR 0xD9, CHR 0xDA, CHR 0xDB, CHR 0xDC, CHR 0xDD, CHR 0xDE]"

definition lower_letters :: string where
  "lower_letters = ''abcdefghijklmnopqrstuvwxyz'' @
     [CHR 0xE0, CHR 0xE1, CHR 0xE2, CHR 0xE3, CHR 0xE4, CHR 0xE5, CHR 0xE6, CHR 0xE7,
      CHR 0xE8, CHR 0xE9, CHR 0xEA, CHR 0xEB, CHR 0xEC, CHR 0xED, CHR 0xEE, CHR 0xEF,
      CHR 0xF0, CHR 0xF1, CHR 0xF2, CHR 0xF3, CHR 0xF4, CHR 0xF5, CHR 0xF6,
      CHR 0xF8, CHR 0xF9, CHR 0xFA, CHR 0xFB, CHR 0xFC, CHR 0xFD, CHR 0xFE]"

definition to_lower :: "char \<Rightarrow> char" where
  "to_lower c = (case map_of (zip upper_letters lower_letters) c of Some l \<Rightarrow> l | None \<Rightarrow> c)"

definition toLowerCase :: "string \<Rightarrow> string" where
  "toLowerCase s = map to_lower s"

text \<open>
  Canonicalize of a regular expression with the \<^verbatim>\<open>i\<close> flag (no \<^verbatim>\<open>u\<close> flag): the upper
  case of the code unit, unless that is not a single code unit or leaves the range above
  127 for ASCII. On 0..255 the two code units whose upper case lies outside the range
  (0xB5 and 0xFF) keep their value here; they never compare equal to an ASCII pattern
  character either way.
\<close>

definition canonicalize :: "char \<Rightarrow> char" where
  "canonicalize c = (case map_of (zip lower_letters upper_letters) c of Some u \<Rightarrow> u | None \<Rightarrow> c)"

section \<open>Node's path module (POSIX)\<close>

definition sep :: char where
  "sep = CHR ''/''"

fun split_sep :: "string \<Rightarrow> string list" where
  "split_sep [] = [[]]"
| "split_sep (c # cs) =
     (if c = sep then [] # split_sep cs
      else (case split_sep cs of [] \<Rightarrow> [[c]] | s # ss \<Rightarrow> (c # s) # ss))"

fun join_sep :: "string list \<Rightarrow> string" where
  "join_sep [] = []"
| "join_sep [s] = s"
| "join_sep (s # t # ts) = s @ sep # join_sep (t # ts)"

text \<open>
  \<^verbatim>\<open>normalizeString\<close>: the segments of the path are pushed on a stack; empty segments
  and \<^verbatim>\<open>.\<close> are dropped, \<^verbatim>\<open>..\<close> pops the last segment unless the stack is empty or ends
  in \<^verbatim>\<open>..\<close>, where it is kept only if the path is relative.
\<close>

definition normalize_step :: "bool \<Rightarrow> string list \<Rightarrow> string \<Rightarrow> string list" where
  "normalize_step allowAboveRoot st seg =
     (if seg = [] \<or> seg = ''.'' then st
      else if seg = ''..'' then
        (if st \<noteq> [] \<and> last st \<noteq> ''..'' then butlast st
         else if allowAboveRoot then st @ [''..''] else st)
      else st @ [seg])"

definition normalizeString :: "string \<Rightarrow> bool \<Rightarrow> string" where
  "normalizeString path allowAboveRoot =
     join_sep (foldl (normalize_step allowAboveRoot) [] (split_sep path))"

definition normalize :: "string \<Rightarrow> string" where
  "normalize path =
     (if path = [] then ''.''
      else
        let isAbsolute = (hd path = sep);
            trailingSeparator = (last path = sep);
            p = normalizeString path (\<not> isAbsolute)
        in if p = [] then (if isAbsolute then ''/'' else if trailingSeparator then ''./'' else ''.'')
           else (if isAbsolute then ''/'' else []) @ p @ (if trailingSeparator then ''/'' else []))"

definition path_join :: "string list \<Rightarrow> string" where
  "path_join args =
     (let joined = join_sep (filter (\<lambda>a. a \<noteq> []) args)
      in if joined = [] then ''.'' else normalize joined)"

definition basename :: "string \<Rightarrow> string" where
  "basename path =
     rev (takeWhile (\<lambda>c. c \<noteq> sep) (dropWhile (\<lambda>c. c = sep) (rev path)))"

definition extname :: "string \<Rightarrow> string" where
  "extname path =
     (let b = basename path;
          e = rev (takeWhile (\<lambda>c. c \<noteq> CHR ''.'') (rev b))
      in if CHR ''.'' \<notin> set b then []
         else if length b = length e + 1 then []
         else if b = ''..'' then []
         else CHR ''.'' # e)"

section \<open>Buffers and base64\<close>

definition base64_alphabet :: string where
  "base64_alphabet = ''ABCDEFGHIJKLMNOPQRSTUVWXYZabcdefghijklmnopqrstuvwxyz0123456789+/''"

definition b64 :: "nat \<Rightarrow> char" where
  "b64 n = base64_alphabet ! (n mod 64)"

text \<open>\<^verbatim>\<open>buffer.toString('base64')\<close>: three bytes give four characters, padded with \<^verbatim>\<open>=\<close>.\<close>

fun base64 :: "string \<Rightarrow> string" where
  "base64 [] = []"
| "base64 [a] =
     [b64 (of_char a div 4), b64 ((of_char a mod 4) * 16), CHR ''='', CHR ''='']"
| "base64 [a, b] =
     [b64 (of_char a div 4), b64 ((of_char a mod 4) * 16 + of_char b div 16),
      b64 ((of_char b mod 16) * 4), CHR ''='']"
| "base64 (a # b # c # bs) =
     [b64 (of_char a div 4), b64 ((of_char a mod 4) * 16 + of_char b div 16),
      b64 ((of_char b mod 16) * 4 + of_char c div 64), b64 (of_char c mod 64)] @ base64 bs"

section \<open>The file system\<close>

text \<open>
  A flat store from absolute paths to nodes; a path exists iff it has an entry. The
  content of a file is its bytes for an asset and its text for an HTML file.
\<close>

datatype fnode = File string | Dir

type_synonym filesystem = "(string \<times> fnode) list"

datatype errno = ENOENT | EISDIR | ENOTDIR

definition existsSync :: "filesystem \<Rightarrow> string \<Rightarrow> bool" where
  "existsSync fs p = (map_of fs p \<noteq> None)"

definition readFileSync :: "filesystem \<Rightarrow> string \<Rightarrow> errno + string" where
  "readFileSync fs p =
     (case map_of fs p of
        None \<Rightarrow> Inl ENOENT
      | Some Dir \<Rightarrow> Inl EISDIR
      | Some (File c) \<Rightarrow> Inr c)"

definition writeFileSync :: "filesystem \<Rightarrow> string \<Rightarrow> string \<Rightarrow> errno + filesystem" where
  "writeFileSync fs p c =
     (case map_of fs p of
        Some Dir \<Rightarrow> Inl EISDIR
      | _ \<Rightarrow> Inr (AList.update p (File c) fs))"

text \<open>
  \<^verbatim>\<open>fs.copyFileSync\<close> opens the source for reading, then the destination for writing
  (creating it if need be), then copies the content. A directory opens for reading but
  cannot be read; a directory cannot be opened for writing. When the copy fails after
  the destination was opened, the destination is removed: the error comes with the
  file system that is left.
\<close>

definition copyFileSync ::
  "filesystem \<Rightarrow> string \<Rightarrow> string \<Rightarrow> (errno \<times> filesystem) + filesystem" where
  "copyFileSync fs src dest =
     (case map_of fs src of
        None \<Rightarrow> Inl (ENOENT, fs)
      | Some n \<Rightarrow>
          (case map_of fs dest of
             Some Dir \<Rightarrow> Inl (EISDIR, fs)
           | _ \<Rightarrow>
               (case n of
                  File c \<Rightarrow> Inr (AList.update dest (File c) fs)
                | Dir \<Rightarrow> Inl (EISDIR, AList.delete dest fs))))"

definition isFile :: "fnode \<Rightarrow> bool" where
  "isFile n = (case n of File c \<Rightarrow> True | Dir \<Rightarrow> False)"

definition statSync :: "filesystem \<Rightarrow> string \<Rightarrow> errno + fnode" where
  "statSync fs p = (case map_of fs p of None \<Rightarrow> Inl ENOENT | Some n \<Rightarrow> Inr n)"

definition dir_prefix :: "string \<Rightarrow> string" where
  "dir_prefix d = (if d \<noteq> [] \<and> last d = sep then d else d @ [sep])"

definition entry_name :: "string \<Rightarrow> string \<Rightarrow> string option" where
  "entry_name d p =
     (if startsWith p (dir_prefix d) then
        (let name = drop (length (dir_prefix d)) p
         in if name \<noteq> [] \<and> sep \<notin> set name then Some name else None)
      else None)"

definition readdirSync :: "filesystem \<Rightarrow> string \<Rightarrow> errno + string list" where
  "readdirSync fs d =
     (case map_of fs d of
        None \<Rightarrow> Inl ENOENT
      | Some (File c) \<Rightarrow> Inl ENOTDIR
      | Some Dir \<Rightarrow> Inr (List.map_filter (entry_name d) (map fst fs)))"

section \<open>ImageToBase64Converter\<close>

record converter =
  htmlDir :: string
  assetsDir :: string
  supportedExtensions :: "string list"
  processedFiles :: "string list"
  errors :: "(string \<times> errno) list"

definition new_converter :: "string \<Rightarrow> converter" where
  "new_converter dirname =
     \<lparr> htmlDir = dirname,
       assetsDir = path_join [dirname, ''..'', ''assets''],
       supportedExtensions =
         [''.gif'', ''.webp'', ''.png'', ''.jpg'', ''.jpeg'', ''.svg'', ''.bmp'', ''.mp4''],
       processedFiles = [],
       errors = [] \<rparr>"

definition mimeType :: "string \<Rightarrow> string" where
  "mimeType ext =
     (if ext = ''.gif'' then ''image/gif''
      else if ext = ''.webp'' then ''image/webp''
      else if ext = ''.png'' then ''image/png''
      else if ext = ''.jpg'' \<or> ext = ''.jpeg'' then ''image/jpeg''
      else if ext = ''.svg'' then ''image/svg+xml''
      else if ext = ''.bmp'' then ''image/bmp''
      else if ext = ''.mp4'' then ''video/mp4''
      else ''image/png'')"

definition imageToBase64 :: "filesystem \<Rightarrow> converter \<Rightarrow> string \<Rightarrow> string option \<times> converter" where
  "imageToBase64 fs conv imagePath =
     (if \<not> existsSync fs imagePath then (None, conv)
      else
        (case readFileSync fs imagePath of
           Inl e \<Rightarrow> (None, conv\<lparr>errors := errors conv @ [(imagePath, e)]\<rparr>)
         | Inr imageBuffer \<Rightarrow>
             (let ext = toLowerCase (extname imagePath);
                  base64String = base64 imageBuffer
              in (Some (''data:'' @ mimeType ext @ '';base64,'' @ base64String), conv))))"

definition resolveImagePath :: "converter \<Rightarrow> string \<Rightarrow> string" where
  "resolveImagePath conv src0 =
     (let src = trim src0
      in if startsWith src ''./assets/'' then
           path_join [assetsDir conv, replace_first ''./assets/'' [] src]
         else if startsWith src ''../assets/'' then
           path_join [assetsDir conv, replace_first ''../assets/'' [] src]
         else if startsWith src ''assets/'' then
           path_join [assetsDir conv, replace_first ''assets/'' [] src]
         else path_join [assetsDir conv, basename src])"

section \<open>The tag regular expression\<close>

fun match_literal :: "string \<Rightarrow> string \<Rightarrow> string option" where
  "match_literal [] s = Some s"
| "match_literal (p # ps) [] = None"
| "match_literal (p # ps) (c # cs) =
     (if canonicalize c = canonicalize p then match_literal ps cs else None)"

fun greedy_star :: "(char \<Rightarrow> bool) \<Rightarrow> (string \<Rightarrow> 'a option) \<Rightarrow> string \<Rightarrow> (string \<times> 'a) option" where
  "greedy_star P k [] = map_option (Pair []) (k [])"
| "greedy_star P k (c # cs) =
     (if P c then
        (case greedy_star P k cs of
           Some (g, r) \<Rightarrow> Some (c # g, r)
         | None \<Rightarrow> map_option (Pair []) (k (c # cs)))
      else map_option (Pair []) (k (c # cs)))"

definition greedy_plus :: "(char \<Rightarrow> bool) \<Rightarrow> (string \<Rightarrow> 'a option) \<Rightarrow> string \<Rightarrow> (string \<times> 'a) option" where
  "greedy_plus P k s =
     (case s of
        [] \<Rightarrow> None
      | c # cs \<Rightarrow>
          if P c then map_option (\<lambda>(g, r). (c # g, r)) (greedy_star P k cs) else None)"

definition is_quote :: "char \<Rightarrow> bool" where
  "is_quote c = (c = CHR 0x22 \<or> c = CHR 0x27)"

definition close_tag :: "string \<Rightarrow> string option" where
  "close_tag s = (case s of [] \<Rightarrow> None | c # cs \<Rightarrow> if c = CHR ''>'' then Some cs else None)"

definition closing_quote :: "string \<Rightarrow> (string \<times> string) option" where
  "closing_quote s =
     (case s of
        [] \<Rightarrow> None
      | q # cs \<Rightarrow> if is_quote q then greedy_star (\<lambda>c. c \<noteq> CHR ''>'') close_tag cs else None)"

definition src_attribute :: "string \<Rightarrow> (string \<times> string \<times> string) option" where
  "src_attribute s =
     (case s of
        [] \<Rightarrow> None
      | w # cs \<Rightarrow>
          if js_whitespace w then
            (case match_literal ''src='' cs of
               None \<Rightarrow> None
             | Some [] \<Rightarrow> None
             | Some (q # r) \<Rightarrow>
                 if is_quote q then greedy_plus (\<lambda>c. \<not> is_quote c) closing_quote r else None)
          else None)"

definition match_tag :: "string \<Rightarrow> string \<Rightarrow> (string \<times> string \<times> string \<times> string) option" where
  "match_tag tag s =
     (case match_literal (CHR ''<'' # tag) s of
        None \<Rightarrow> None
      | Some r \<Rightarrow> greedy_star (\<lambda>c. c \<noteq> CHR ''>'') src_attribute r)"


lemma match_literal_decomp:
  "match_literal p s = Some r \<Longrightarrow>
     \<exists>t. s = t @ r \<and> map canonicalize t = map canonicalize p"
proof (induction p s rule: match_literal.induct)
  case (1 s)
  then show ?case by simp
next
  case (2 p ps)
  then show ?case by simp
next
  case (3 p ps c cs)
  then have eq: "canonicalize c = canonicalize p" and m: "match_literal ps cs = Some r"
    by (auto split: if_splits)
  from "3.IH" [OF eq m] obtain t where "cs = t @ r" "map canonicalize t = map canonicalize ps"
    by blast
  with eq have "c # cs = (c # t) @ r \<and> map canonicalize (c # t) = map canonicalize (p # ps)"
    by simp
  then show ?case by blast
qed

lemma greedy_star_decomp:
  "greedy_star P k s = Some (g, x) \<Longrightarrow> \<exists>r. s = g @ r \<and> list_all P g \<and> k r = Some x"
proof (induction s arbitrary: g)
  case Nil
  then show ?case by auto
next
  case (Cons c cs)
  show ?case
  proof (cases "P c")
    case False
    with Cons.prems show ?thesis by auto
  next
    case True
    show ?thesis
    proof (cases "greedy_star P k cs")
      case None
      with True Cons.prems show ?thesis by auto
    next
      case (Some a)
      obtain g' x' where a: "a = (g', x')" by (cases a)
      with Some True Cons.prems have g: "g = c # g'" and x: "x' = x" by auto
      from Cons.IH [of g'] Some a x obtain r where "cs = g' @ r" "list_all P g'" "k r = Some x"
        by auto
      with g True show ?thesis by auto
    qed
  qed
qed

lemma greedy_plus_decomp:
  "greedy_plus P k s = Some (g, x) \<Longrightarrow>
     \<exists>r. s = g @ r \<and> g \<noteq> [] \<and> list_all P g \<and> k r = Some x"
  by (cases s) (auto simp: greedy_plus_def split: if_splits dest!: greedy_star_decomp)

lemma close_tag_decomp: "close_tag s = Some r \<Longrightarrow> s = CHR ''>'' # r"
  by (cases s) (auto simp: close_tag_def split: if_splits)

lemma closing_quote_decomp:
  "closing_quote s = Some (a, r) \<Longrightarrow>
     \<exists>q. is_quote q \<and> s = q # a @ CHR ''>'' # r \<and> list_all (\<lambda>c. c \<noteq> CHR ''>'') a"
  by (cases s) (auto simp: closing_quote_def split: if_splits dest!: greedy_star_decomp close_tag_decomp)

lemma src_attribute_decomp:
  assumes "src_attribute s = Some (v, a, r)"
  shows "\<exists>w kw q1 q2. s = w # kw @ q1 # v @ q2 # a @ CHR ''>'' # r \<and>
           js_whitespace w \<and> map canonicalize kw = map canonicalize ''src='' \<and>
           is_quote q1 \<and> is_quote q2 \<and> v \<noteq> [] \<and> list_all (\<lambda>c. \<not> is_quote c) v \<and>
           list_all (\<lambda>c. c \<noteq> CHR ''>'') a"
proof (cases s)
  case Nil
  with assms show ?thesis by (simp add: src_attribute_def)
next
  case (Cons w cs)
  with assms have w: "js_whitespace w" by (auto simp: src_attribute_def split: if_splits)
  from assms Cons w obtain q1 r1 where m: "match_literal ''src='' cs = Some (q1 # r1)"
    and q1: "is_quote q1" and p: "greedy_plus (\<lambda>c. \<not> is_quote c) closing_quote r1 = Some (v, a, r)"
    by (auto simp: src_attribute_def split: option.splits list.splits if_splits)
  from match_literal_decomp [OF m] obtain kw where
    kw: "cs = kw @ q1 # r1" "map canonicalize kw = map canonicalize ''src=''" by blast
  from greedy_plus_decomp [OF p] obtain r2 where
    r2: "r1 = v @ r2" "v \<noteq> []" "list_all (\<lambda>c. \<not> is_quote c) v" "closing_quote r2 = Some (a, r)"
    by blast
  from closing_quote_decomp [OF r2(4)] obtain q2 where
    q2: "is_quote q2" "r2 = q2 # a @ CHR ''>'' # r" "list_all (\<lambda>c. c \<noteq> CHR ''>'') a" by blast
  from Cons kw r2 q2 w q1 show ?thesis by auto
qed

lemma match_tag_decomp:
  assumes "match_tag tag s = Some (b, v, a, r)"
  shows "\<exists>t w kw q1 q2. s = t @ b @ w # kw @ q1 # v @ q2 # a @ CHR ''>'' # r \<and>
           map canonicalize t = map canonicalize (CHR ''<'' # tag) \<and>
           list_all (\<lambda>c. c \<noteq> CHR ''>'') b \<and>
           js_whitespace w \<and> map canonicalize kw = map canonicalize ''src='' \<and>
           is_quote q1 \<and> is_quote q2 \<and> v \<noteq> [] \<and> list_all (\<lambda>c. \<not> is_quote c) v \<and>
           list_all (\<lambda>c. c \<noteq> CHR ''>'') a"
proof -
  from assms obtain r1 where m: "match_literal (CHR ''<'' # tag) s = Some r1"
    and g: "greedy_star (\<lambda>c. c \<noteq> CHR ''>'') src_attribute r1 = Some (b, v, a, r)"
    by (auto simp: match_tag_def split: option.splits)
  from match_literal_decomp [OF m] obtain t where
    t: "s = t @ r1" "map canonicalize t = map canonicalize (CHR ''<'' # tag)" by blast
  from greedy_star_decomp [OF g] obtain r2 where
    r2: "r1 = b @ r2" "list_all (\<lambda>c. c \<noteq> CHR ''>'') b" "src_attribute r2 = Some (v, a, r)" by blast
  from src_attribute_decomp [OF r2(3)] obtain w kw q1 q2 where
    d: "r2 = w # kw @ q1 # v @ q2 # a @ CHR ''>'' # r" "js_whitespace w"
       "map canonicalize kw = map canonicalize ''src=''" "is_quote q1" "is_quote q2" "v \<noteq> []"
       "list_all (\<lambda>c. \<not> is_quote c) v" "list_all (\<lambda>c. c \<noteq> CHR ''>'') a"
    by blast
  have "s = t @ b @ w # kw @ q1 # v @ q2 # a @ CHR ''>'' # r"
    using t(1) r2(1) d(1) by simp
  with t(2) r2(2) d(2-) show ?thesis by blast
qed

lemma match_tag_shorter: "match_tag tag s = Some (b, v, a, r) \<Longrightarrow> length r < length s"
  by (drule match_tag_decomp) auto

section \<open>String.prototype.replace with a global regular expression\<close>

datatype segment = Lit char | Match string string string string

function scan :: "string \<Rightarrow> string \<Rightarrow> segment list" where
  "scan tag [] = []"
| "scan tag (c # cs) =
     (case match_tag tag (c # cs) of
        None \<Rightarrow> Lit c # scan tag cs
      | Some (p1, p2, p3, rest) \<Rightarrow>
          Match (take (length (c # cs) - length rest) (c # cs)) p1 p2 p3 # scan tag rest)"
  by pat_completeness auto
termination
  by (relation "measure (\<lambda>(tag, s). length s)") (auto dest: match_tag_shorter)

fun replace_segments ::
  "(string \<Rightarrow> string \<Rightarrow> string \<Rightarrow> string \<Rightarrow> 'st \<Rightarrow> string \<times> 'st) \<Rightarrow> segment list \<Rightarrow> 'st \<Rightarrow> string \<times> 'st" where
  "replace_segments f [] st = ([], st)"
| "replace_segments f (Lit c # segs) st =
     (let (out, st') = replace_segments f segs st in (c # out, st'))"
| "replace_segments f (Match m p1 p2 p3 # segs) st =
     (let (r, st1) = f m p1 p2 p3 st;
          (out, st2) = replace_segments f segs st1
      in (r @ out, st2))"

definition js_replace ::
  "string \<Rightarrow> (string \<Rightarrow> string \<Rightarrow> string \<Rightarrow> string \<Rightarrow> 'st \<Rightarrow> string \<times> 'st) \<Rightarrow> string \<Rightarrow> 'st \<Rightarrow> string \<times> 'st" where
  "js_replace tag f s st = replace_segments f (scan tag s) st"

section \<open>processHtmlFile\<close>

definition tag_callback ::
  "filesystem \<Rightarrow> string \<Rightarrow> string \<Rightarrow> string \<Rightarrow> string \<Rightarrow> string \<Rightarrow> bool \<times> converter \<Rightarrow> string \<times> bool \<times> converter" where
  "tag_callback fs tag m beforeSrc src afterSrc st =
     (case st of (modified, conv) \<Rightarrow>
        if startsWith src ''data:'' then (m, modified, conv)
        else
          let imagePath = resolveImagePath conv src;
              ext = toLowerCase (extname imagePath)
          in if ext \<notin> set (supportedExtensions conv) then (m, modified, conv)
             else
               (case imageToBase64 fs conv imagePath of
                  (None, conv') \<Rightarrow> (m, modified, conv')
                | (Some base64Data, conv') \<Rightarrow>
                    if base64Data \<noteq> [] then
                      (''<'' @ tag @ beforeSrc @ '' src=\"'' @ base64Data @ ''\"'' @ afterSrc @ ''>'',
                       True, conv')
                    else (m, modified, conv')))"

definition rewrite_html :: "filesystem \<Rightarrow> converter \<Rightarrow> string \<Rightarrow> string \<times> bool \<times> converter" where
  "rewrite_html fs conv htmlContent =
     (let (h1, st1) = js_replace ''img'' (tag_callback fs ''img'') htmlContent (False, conv);
          (h2, st2) = js_replace ''video'' (tag_callback fs ''video'') h1 st1;
          (h3, st3) = js_replace ''source'' (tag_callback fs ''source'') h2 st2
      in (h3, st3))"

definition processHtmlFile :: "converter \<Rightarrow> filesystem \<Rightarrow> string \<Rightarrow> converter \<times> filesystem" where
  "processHtmlFile conv fs htmlFilePath =
     (case readFileSync fs htmlFilePath of
        Inl e \<Rightarrow> (conv\<lparr>errors := errors conv @ [(htmlFilePath, e)]\<rparr>, fs)
      | Inr htmlContent \<Rightarrow>
          (case rewrite_html fs conv htmlContent of (html', modified, conv') \<Rightarrow>
             if modified then
               (let backupPath = htmlFilePath @ ''.backup'' in
                  (case (if \<not> existsSync fs backupPath
                         then copyFileSync fs htmlFilePath backupPath else Inr fs) of
                     Inl (e, fs0) \<Rightarrow> (conv'\<lparr>errors := errors conv' @ [(htmlFilePath, e)]\<rparr>, fs0)
                   | Inr fs1 \<Rightarrow>
                       (case writeFileSync fs1 htmlFilePath html' of
                          Inl e \<Rightarrow> (conv'\<lparr>errors := errors conv' @ [(htmlFilePath, e)]\<rparr>, fs1)
                        | Inr fs2 \<Rightarrow>
                            (conv'\<lparr>processedFiles := processedFiles conv' @ [htmlFilePath]\<rparr>, fs2))))
             else (conv', fs)))"

section \<open>Directory scans, run and restore\<close>

definition findHtmlFiles :: "converter \<Rightarrow> filesystem \<Rightarrow> string list" where
  "findHtmlFiles conv fs =
     (case readdirSync fs (htmlDir conv) of
        Inl e \<Rightarrow> []
      | Inr files \<Rightarrow>
          (let paths = map (\<lambda>file. path_join [htmlDir conv, file])
                         (filter (\<lambda>file. endsWith file ''.html'') files)
           in if list_all (existsSync fs) paths
              then filter (\<lambda>filePath. case map_of fs filePath of Some n \<Rightarrow> isFile n | None \<Rightarrow> False) paths
              else []))"

definition listAvailableImages :: "converter \<Rightarrow> filesystem \<Rightarrow> string list" where
  "listAvailableImages conv fs =
     (case readdirSync fs (assetsDir conv) of
        Inl e \<Rightarrow> []
      | Inr files \<Rightarrow>
          (let imageFiles = filter (\<lambda>file. toLowerCase (extname file) \<in> set (supportedExtensions conv)) files
           in if list_all (\<lambda>file. existsSync fs (path_join [assetsDir conv, file])) imageFiles
              then imageFiles else []))"

fun processAll :: "converter \<Rightarrow> filesystem \<Rightarrow> string list \<Rightarrow> converter \<times> filesystem" where
  "processAll conv fs [] = (conv, fs)"
| "processAll conv fs (htmlFile # rest) =
     (case processHtmlFile conv fs htmlFile of (conv', fs') \<Rightarrow> processAll conv' fs' rest)"

datatype run_outcome = AssetsDirNotFound | NoAssetsFound | NoHtmlFilesFound | Summary

definition run :: "converter \<Rightarrow> filesystem \<Rightarrow> run_outcome \<times> converter \<times> filesystem" where
  "run conv fs =
     (if \<not> existsSync fs (assetsDir conv) then (AssetsDirNotFound, conv, fs)
      else if listAvailableImages conv fs = [] then (NoAssetsFound, conv, fs)
      else
        (let htmlFiles = findHtmlFiles conv fs
         in if htmlFiles = [] then (NoHtmlFilesFound, conv, fs)
            else (case processAll conv fs htmlFiles of (conv', fs') \<Rightarrow> (Summary, conv', fs'))))"

fun restoreAll :: "nat \<Rightarrow> filesystem \<Rightarrow> string list \<Rightarrow> nat \<times> filesystem" where
  "restoreAll restoredCount fs [] = (restoredCount, fs)"
| "restoreAll restoredCount fs (htmlFile # rest) =
     (let backupPath = htmlFile @ ''.backup''
      in if existsSync fs backupPath then
           (case copyFileSync fs backupPath htmlFile of
              Inr fs' \<Rightarrow> restoreAll (restoredCount + 1) fs' rest
            | Inl (e, fs') \<Rightarrow> restoreAll restoredCount fs' rest)
         else restoreAll restoredCount fs rest)"

definition restore :: "converter \<Rightarrow> filesystem \<Rightarrow> nat \<times> filesystem" where
  "restore conv fs = restoreAll 0 fs (findHtmlFiles conv fs)"

section \<open>The encoder\<close>

lemma b64_in_alphabet: "b64 n \<in> set base64_alphabet"
proof -
  have "n mod 64 < length base64_alphabet" by (simp add: base64_alphabet_def)
  then show ?thesis unfolding b64_def by (rule nth_mem)
qed

lemma base64_chars: "set (base64 bs) \<subseteq> insert (CHR ''='') (set base64_alphabet)"
  by (induction bs rule: base64.induct) (auto simp: b64_in_alphabet)

lemma base64_length: "length (base64 bs) = 4 * ((length bs + 2) div 3)"
proof (induction bs rule: base64.induct)
  case (4 a b c bs)
  have "(length (a # b # c # bs) + 2) div 3 = Suc ((length bs + 2) div 3)" by simp
  with 4 show ?case by simp
qed simp_all

lemma base64_no_line_break: "CHR 0x0A \<notin> set (base64 bs) \<and> CHR 0x0D \<notin> set (base64 bs)"
proof -
  have "CHR 0x0A \<notin> insert (CHR ''='') (set base64_alphabet)"
    and "CHR 0x0D \<notin> insert (CHR ''='') (set base64_alphabet)"
    by (simp_all add: base64_alphabet_def)
  with base64_chars [of bs] show ?thesis by blast
qed

lemma mimeType_no_line_break: "CHR 0x0A \<notin> set (mimeType e) \<and> CHR 0x0D \<notin> set (mimeType e)"
  by (simp add: mimeType_def)

text \<open>
  The extension of a file agrees with an entry of the table when they are the same up
  to the case of the letters: character by character, the same character or the
  capital of the entry's letter.
\<close>

definition capital_of :: "char \<Rightarrow> char \<Rightarrow> bool" where
  "capital_of c l =
     ((c, l) \<in> set (zip ''ABCDEFGHIJKLMNOPQRSTUVWXYZ'' ''abcdefghijklmnopqrstuvwxyz''))"

definition same_ignoring_case :: "string \<Rightarrow> string \<Rightarrow> bool" where
  "same_ignoring_case ext entry = list_all2 (\<lambda>c l. c = l \<or> capital_of c l) ext entry"

definition plain_chars :: string where
  "plain_chars = ''.abcdefghijklmnopqrstuvwxyz0123456789''"

lemma to_lower_plain:
  assumes "l \<in> set plain_chars"
  shows "to_lower c = l \<longleftrightarrow> c = l \<or> capital_of c l"
proof
  assume low: "to_lower c = l"
  show "c = l \<or> capital_of c l"
  proof (cases "map_of (zip upper_letters lower_letters) c")
    case None
    with low show ?thesis by (simp add: to_lower_def)
  next
    case (Some u)
    with low have "u = l" by (simp add: to_lower_def)
    with Some have in_table: "(c, l) \<in> set (zip upper_letters lower_letters)"
      by (auto dest: map_of_SomeD)
    have "list_all (\<lambda>(u, l). l \<notin> set plain_chars \<or> capital_of u l)
        (zip upper_letters lower_letters)"
      by code_simp
    with in_table assms have "capital_of c l" unfolding list_all_iff by blast
    then show ?thesis ..
  qed
next
  assume "c = l \<or> capital_of c l"
  then show "to_lower c = l"
  proof
    assume c: "c = l"
    have "list_all (\<lambda>x. x \<notin> set upper_letters) plain_chars" by code_simp
    with assms have "l \<notin> set upper_letters" unfolding list_all_iff by blast
    then have "l \<notin> fst ` set (zip upper_letters lower_letters)"
      by (auto dest: set_zip_leftD)
    then have "map_of (zip upper_letters lower_letters) l = None"
      by (simp add: map_of_eq_None_iff)
    with c show ?thesis by (simp add: to_lower_def)
  next
    assume "capital_of c l"
    moreover have "list_all (\<lambda>p. p \<in> set (zip upper_letters lower_letters))
        (zip ''ABCDEFGHIJKLMNOPQRSTUVWXYZ'' ''abcdefghijklmnopqrstuvwxyz'')"
      by code_simp
    ultimately have "(c, l) \<in> set (zip upper_letters lower_letters)"
      unfolding capital_of_def list_all_iff by blast
    moreover have "distinct upper_letters" by code_simp
    moreover have "length upper_letters = length lower_letters" by code_simp
    ultimately have "map_of (zip upper_letters lower_letters) c = Some l"
      by (intro map_of_is_SomeI) simp_all
    then show ?thesis by (simp add: to_lower_def)
  qed
qed

lemma toLowerCase_plain:
  "set entry \<subseteq> set plain_chars \<Longrightarrow> toLowerCase ext = entry \<longleftrightarrow> same_ignoring_case ext entry"
proof (induction ext arbitrary: entry)
  case Nil
  then show ?case by (auto simp: toLowerCase_def same_ignoring_case_def)
next
  case (Cons c ext)
  show ?case
  proof (cases entry)
    case Nil
    then show ?thesis by (simp add: toLowerCase_def same_ignoring_case_def)
  next
    case (Cons l entry')
    with Cons.prems have l: "l \<in> set plain_chars" and e: "set entry' \<subseteq> set plain_chars" by simp_all
    from Cons.IH [OF e] to_lower_plain [OF l, of c] Cons show ?thesis
      by (simp add: toLowerCase_def same_ignoring_case_def)
  qed
qed

lemma mime_table_plain:
  "set [''.gif'', ''.webp'', ''.png'', ''.jpg'', ''.jpeg'', ''.svg'', ''.bmp'', ''.mp4'']
     \<subseteq> {entry. set entry \<subseteq> set plain_chars}"
  by (simp add: plain_chars_def)

text \<open>
  C6. For an existing asset file, \<open>imageToBase64\<close> returns exactly
  \<^verbatim>\<open>data:<mime>;base64,<payload>\<close> and records no error. The MIME type is the table entry
  that the extension of the file agrees with up to the case of its letters,
  \<^verbatim>\<open>image/png\<close> when it agrees with none. The payload is the base64 text of the bytes:
  four characters of the base64 alphabet (or padding) for every three bytes, and no line
  break anywhere in the result.
\<close>

theorem imageToBase64_data_uri:
  assumes "map_of fs imagePath = Some (File bytes)"
  shows "\<exists>mime. imageToBase64 fs conv imagePath =
             (Some (''data:'' @ mime @ '';base64,'' @ base64 bytes), conv) \<and>
           (let ext = extname imagePath in
              (same_ignoring_case ext ''.gif'' \<longrightarrow> mime = ''image/gif'') \<and>
              (same_ignoring_case ext ''.webp'' \<longrightarrow> mime = ''image/webp'') \<and>
              (same_ignoring_case ext ''.png'' \<longrightarrow> mime = ''image/png'') \<and>
              (same_ignoring_case ext ''.jpg'' \<longrightarrow> mime = ''image/jpeg'') \<and>
              (same_ignoring_case ext ''.jpeg'' \<longrightarrow> mime = ''image/jpeg'') \<and>
              (same_ignoring_case ext ''.svg'' \<longrightarrow> mime = ''image/svg+xml'') \<and>
              (same_ignoring_case ext ''.bmp'' \<longrightarrow> mime = ''image/bmp'') \<and>
              (same_ignoring_case ext ''.mp4'' \<longrightarrow> mime = ''video/mp4'') \<and>
              ((\<forall>entry\<in>set [''.gif'', ''.webp'', ''.png'', ''.jpg'', ''.jpeg'', ''.svg'', ''.bmp'', ''.mp4''].
                  \<not> same_ignoring_case ext entry) \<longrightarrow> mime = ''image/png'')) \<and>
           CHR 0x0A \<notin> set (''data:'' @ mime @ '';base64,'' @ base64 bytes) \<and>
           CHR 0x0D \<notin> set (''data:'' @ mime @ '';base64,'' @ base64 bytes) \<and>
           set (base64 bytes) \<subseteq> insert (CHR ''='') (set base64_alphabet) \<and>
           length (base64 bytes) = 4 * ((length bytes + 2) div 3)"
proof -
  let ?ext = "toLowerCase (extname imagePath)"
  have run: "imageToBase64 fs conv imagePath =
      (Some (''data:'' @ mimeType ?ext @ '';base64,'' @ base64 bytes), conv)"
    using assms by (simp add: imageToBase64_def existsSync_def readFileSync_def)
  have ci: "same_ignoring_case (extname imagePath) entry \<longleftrightarrow> ?ext = entry"
    if "entry \<in> set [''.gif'', ''.webp'', ''.png'', ''.jpg'', ''.jpeg'', ''.svg'', ''.bmp'', ''.mp4'']"
    for entry
    using that mime_table_plain toLowerCase_plain [of entry "extname imagePath"] by blast
  have table: "(?ext = ''.gif'' \<longrightarrow> mimeType ?ext = ''image/gif'') \<and>
              (?ext = ''.webp'' \<longrightarrow> mimeType ?ext = ''image/webp'') \<and>
              (?ext = ''.png'' \<longrightarrow> mimeType ?ext = ''image/png'') \<and>
              (?ext = ''.jpg'' \<longrightarrow> mimeType ?ext = ''image/jpeg'') \<and>
              (?ext = ''.jpeg'' \<longrightarrow> mimeType ?ext = ''image/jpeg'') \<and>
              (?ext = ''.svg'' \<longrightarrow> mimeType ?ext = ''image/svg+xml'') \<and>
              (?ext = ''.bmp'' \<longrightarrow> mimeType ?ext = ''image/bmp'') \<and>
              (?ext = ''.mp4'' \<longrightarrow> mimeType ?ext = ''video/mp4'') \<and>
              (?ext \<notin> set [''.gif'', ''.webp'', ''.png'', ''.jpg'', ''.jpeg'', ''.svg'', ''.bmp'', ''.mp4'']
                 \<longrightarrow> mimeType ?ext = ''image/png'')"
    by (simp add: mimeType_def)
  have other: "?ext \<notin> set [''.gif'', ''.webp'', ''.png'', ''.jpg'', ''.jpeg'', ''.svg'', ''.bmp'', ''.mp4'']"
    if "\<forall>entry\<in>set [''.gif'', ''.webp'', ''.png'', ''.jpg'', ''.jpeg'', ''.svg'', ''.bmp'', ''.mp4''].
          \<not> same_ignoring_case (extname imagePath) entry"
    using that ci by blast
  have ci_table: "(same_ignoring_case (extname imagePath) ''.gif'' \<longrightarrow> mimeType ?ext = ''image/gif'') \<and>
              (same_ignoring_case (extname imagePath) ''.webp'' \<longrightarrow> mimeType ?ext = ''image/webp'') \<and>
              (same_ignoring_case (extname imagePath) ''.png'' \<longrightarrow> mimeType ?ext = ''image/png'') \<and>
              (same_ignoring_case (extname imagePath) ''.jpg'' \<longrightarrow> mimeType ?ext = ''image/jpeg'') \<and>
              (same_ignoring_case (extname imagePath) ''.jpeg'' \<longrightarrow> mimeType ?ext = ''image/jpeg'') \<and>
              (same_ignoring_case (extname imagePath) ''.svg'' \<longrightarrow> mimeType ?ext = ''image/svg+xml'') \<and>
              (same_ignoring_case (extname imagePath) ''.bmp'' \<longrightarrow> mimeType ?ext = ''image/bmp'') \<and>
              (same_ignoring_case (extname imagePath) ''.mp4'' \<longrightarrow> mimeType ?ext = ''video/mp4'') \<and>
              ((\<forall>entry\<in>set [''.gif'', ''.webp'', ''.png'', ''.jpg'', ''.jpeg'', ''.svg'', ''.bmp'', ''.mp4''].
                  \<not> same_ignoring_case (extname imagePath) entry) \<longrightarrow> mimeType ?ext = ''image/png'')"
    using table other
      ci [of "''.gif''"] ci [of "''.webp''"] ci [of "''.png''"] ci [of "''.jpg''"]
      ci [of "''.jpeg''"] ci [of "''.svg''"] ci [of "''.bmp''"] ci [of "''.mp4''"]
    by simp
  have nl: "CHR 0x0A \<notin> set (''data:'' @ mimeType ?ext @ '';base64,'' @ base64 bytes)"
      "CHR 0x0D \<notin> set (''data:'' @ mimeType ?ext @ '';base64,'' @ base64 bytes)"
    using base64_no_line_break [of bytes] mimeType_no_line_break [of ?ext] by simp_all
  from run ci_table nl base64_chars [of bytes] base64_length [of bytes]
  show ?thesis unfolding Let_def by blast
qed

text \<open>Assets whose extensions are written in upper or mixed case, and one whose extension
  is not in the table.\<close>

definition fs_upper_ext :: filesystem where
  "fs_upper_ext =
     [(''/w/assets'', Dir), (''/w/assets/Anim.GIF'', File ''abc''),
      (''/w/assets/Photo.JpEg'', File ''abc''), (''/w/assets/clip.MP4'', File ''abc''),
      (''/w/assets/Logo.PNG'', File ''abc''), (''/w/assets/notes.txt'', File ''abc'')]"

theorem imageToBase64_data_uri_witness:
  "map_of fs_upper_ext ''/w/assets/Anim.GIF'' = Some (File ''abc'') \<and>
   same_ignoring_case (extname ''/w/assets/Anim.GIF'') ''.gif'' \<and>
   imageToBase64 fs_upper_ext (new_converter ''/w/B64'') ''/w/assets/Anim.GIF'' =
     (Some ''data:image/gif;base64,YWJj'', new_converter ''/w/B64'') \<and>
   imageToBase64 fs_upper_ext (new_converter ''/w/B64'') ''/w/assets/Photo.JpEg'' =
     (Some ''data:image/jpeg;base64,YWJj'', new_converter ''/w/B64'') \<and>
   imageToBase64 fs_upper_ext (new_converter ''/w/B64'') ''/w/assets/clip.MP4'' =
     (Some ''data:video/mp4;base64,YWJj'', new_converter ''/w/B64'') \<and>
   imageToBase64 fs_upper_ext (new_converter ''/w/B64'') ''/w/assets/Logo.PNG'' =
     (Some ''data:image/png;base64,YWJj'', new_converter ''/w/B64'') \<and>
   imageToBase64 fs_upper_ext (new_converter ''/w/B64'') ''/w/assets/notes.txt'' =
     (Some ''data:image/png;base64,YWJj'', new_converter ''/w/B64'')"
proof -
  let ?c = "new_converter ''/w/B64''"
  have h: "map_of fs_upper_ext ''/w/assets/Anim.GIF'' = Some (File ''abc'')"
    by (simp add: fs_upper_ext_def)
  have e: "same_ignoring_case (extname ''/w/assets/Anim.GIF'') ''.gif''"
    by code_simp
  have b: "base64 ''abc'' = ''YWJj''"
    by (simp add: b64_def base64_alphabet_def)
  from imageToBase64_data_uri [OF h, of ?c, unfolded Let_def] e b
  have gif: "imageToBase64 fs_upper_ext ?c ''/w/assets/Anim.GIF'' =
      (Some ''data:image/gif;base64,YWJj'', ?c)"
    by auto
  have jpeg: "imageToBase64 fs_upper_ext ?c ''/w/assets/Photo.JpEg'' =
      (Some ''data:image/jpeg;base64,YWJj'', ?c)"
    by code_simp
  have mp4: "imageToBase64 fs_upper_ext ?c ''/w/assets/clip.MP4'' =
      (Some ''data:video/mp4;base64,YWJj'', ?c)"
    by code_simp
  have png: "imageToBase64 fs_upper_ext ?c ''/w/assets/Logo.PNG'' =
      (Some ''data:image/png;base64,YWJj'', ?c)"
    by code_simp
  have other: "imageToBase64 fs_upper_ext ?c ''/w/assets/notes.txt'' =
      (Some ''data:image/png;base64,YWJj'', ?c)"
    by code_simp
  from h e gif jpeg mp4 png other show ?thesis by blast
qed

section \<open>Hard failures of a run\<close>

lemma listAvailableImages_none:
  assumes "readdirSync fs (assetsDir conv) = Inr names"
    and "\<forall>n\<in>set names. toLowerCase (extname n) \<notin> set (supportedExtensions conv)"
  shows "listAvailableImages conv fs = []"
proof -
  from assms(2) have "filter (\<lambda>file. toLowerCase (extname file) \<in> set (supportedExtensions conv)) names = []"
    by (simp add: filter_empty_conv)
  with assms(1) show ?thesis by (simp add: listAvailableImages_def)
qed

text \<open>
  C8. When the assets directory does not exist, or it lists no file with a supported
  extension, or no HTML file is found, \<open>run\<close> returns early: the outcome names the
  message that was logged, and the converter's report and the whole file system (every
  HTML file, every backup) are the ones it was given.
\<close>

theorem run_hard_failure:
  assumes "\<not> existsSync fs (assetsDir conv) \<or>
           (\<exists>names. readdirSync fs (assetsDir conv) = Inr names \<and>
              (\<forall>n\<in>set names. toLowerCase (extname n) \<notin> set (supportedExtensions conv))) \<or>
           listAvailableImages conv fs = [] \<or>
           findHtmlFiles conv fs = []"
  shows "run conv fs =
           (if \<not> existsSync fs (assetsDir conv) then AssetsDirNotFound
            else if listAvailableImages conv fs = [] then NoAssetsFound
            else NoHtmlFilesFound, conv, fs)"
proof -
  from assms listAvailableImages_none [of fs conv]
  have "\<not> existsSync fs (assetsDir conv) \<or> listAvailableImages conv fs = [] \<or>
        findHtmlFiles conv fs = []"
    by blast
  then show ?thesis by (auto simp: run_def Let_def)
qed

text \<open>The converter of the examples: the script lives in \<^verbatim>\<open>/w/B64\<close>.\<close>

lemma example_dirs:
  "htmlDir (new_converter ''/w/B64'') = ''/w/B64''"
  "assetsDir (new_converter ''/w/B64'') = ''/w/assets''"
  by code_simp+

definition fs_no_assets_dir :: filesystem where
  "fs_no_assets_dir = [(''/w/B64'', Dir), (''/w/B64/index.html'', File ''<img src=\"a.png\">'')]"

definition fs_no_assets :: filesystem where
  "fs_no_assets = [(''/w/B64'', Dir), (''/w/B64/index.html'', File ''<img src=\"a.txt\">''),
                   (''/w/assets'', Dir), (''/w/assets/a.txt'', File ''abc'')]"

definition fs_no_html :: filesystem where
  "fs_no_html = [(''/w/B64'', Dir), (''/w/B64/notes.txt'', File ''<img src=\"a.png\">''),
                 (''/w/assets'', Dir), (''/w/assets/a.png'', File ''abc'')]"

theorem run_hard_failure_witness:
  "run (new_converter ''/w/B64'') fs_no_assets_dir =
     (AssetsDirNotFound, new_converter ''/w/B64'', fs_no_assets_dir) \<and>
   run (new_converter ''/w/B64'') fs_no_assets =
     (NoAssetsFound, new_converter ''/w/B64'', fs_no_assets) \<and>
   run (new_converter ''/w/B64'') fs_no_html =
     (NoHtmlFilesFound, new_converter ''/w/B64'', fs_no_html)"
proof -
  let ?c = "new_converter ''/w/B64''"
  have a1: "\<not> existsSync fs_no_assets_dir (assetsDir ?c)"
    by code_simp
  have a2: "existsSync fs_no_assets (assetsDir ?c)"
    by code_simp
  have b2: "\<forall>n\<in>set [''a.txt'']. toLowerCase (extname n) \<notin> set (supportedExtensions ?c)"
    by code_simp
  have c2: "readdirSync fs_no_assets (assetsDir ?c) = Inr [''a.txt'']"
    by code_simp
  have d2: "listAvailableImages ?c fs_no_assets = []"
    by code_simp
  have a3: "existsSync fs_no_html (assetsDir ?c)"
    by code_simp
  have b3: "listAvailableImages ?c fs_no_html \<noteq> []"
    by code_simp
  have c3: "findHtmlFiles ?c fs_no_html = []"
    by code_simp
  from run_hard_failure [of fs_no_assets_dir ?c] a1
  have r1: "run ?c fs_no_assets_dir = (AssetsDirNotFound, ?c, fs_no_assets_dir)" by simp
  from b2 c2 have "\<exists>names. readdirSync fs_no_assets (assetsDir ?c) = Inr names \<and>
      (\<forall>n\<in>set names. toLowerCase (extname n) \<notin> set (supportedExtensions ?c))"
    by blast
  with run_hard_failure [of fs_no_assets ?c] a2 d2
  have r2: "run ?c fs_no_assets = (NoAssetsFound, ?c, fs_no_assets)" by simp
  from run_hard_failure [of fs_no_html ?c] a3 b3 c3
  have r3: "run ?c fs_no_html = (NoHtmlFilesFound, ?c, fs_no_html)" by simp
  from r1 r2 r3 show ?thesis by simp
qed

section \<open>Path lemmas\<close>

lemma split_sep_not_Nil [simp]: "split_sep s \<noteq> []"
  by (induction s) (auto split: list.splits)

lemma split_sep_no_sep: "sep \<notin> set x \<Longrightarrow> split_sep x = [x]"
  by (induction x) auto

lemma split_sep_append: "split_sep (a @ sep # b) = split_sep a @ split_sep b"
proof (induction a)
  case Nil
  show ?case by simp
next
  case (Cons c a)
  show ?case
  proof (cases "c = sep")
    case True
    with Cons show ?thesis by simp
  next
    case False
    obtain s ss where s: "split_sep a = s # ss" by (cases "split_sep a") auto
    with False Cons show ?thesis by simp
  qed
qed

lemma split_sep_segments: "s \<in> set (split_sep p) \<Longrightarrow> sep \<notin> set s"
proof (induction p arbitrary: s)
  case Nil
  then show ?case by simp
next
  case (Cons c p)
  obtain t ts where t: "split_sep p = t # ts" by (cases "split_sep p") auto
  show ?case
  proof (cases "c = sep")
    case True
    with Cons show ?thesis by auto
  next
    case False
    with Cons.prems t have "s = c # t \<or> s \<in> set ts" by simp
    with Cons.IH [of t] Cons.IH [of s] t False show ?thesis by auto
  qed
qed

lemma join_sep_snoc: "st \<noteq> [] \<Longrightarrow> join_sep (st @ [x]) = join_sep st @ sep # x"
  by (induction st rule: join_sep.induct) auto

lemma join_sep_eq_Nil: "join_sep st = [] \<Longrightarrow> \<forall>s\<in>set st. s \<noteq> [] \<Longrightarrow> st = []"
  by (induction st rule: join_sep.induct) auto

lemma split_join_sep:
  "st \<noteq> [] \<Longrightarrow> \<forall>s\<in>set st. sep \<notin> set s \<Longrightarrow> split_sep (join_sep st) = st"
proof (induction st rule: join_sep.induct)
  case 1
  then show ?case by simp
next
  case (2 s)
  then show ?case by (simp add: split_sep_no_sep)
next
  case (3 s t ts)
  then have "split_sep (join_sep (t # ts)) = t # ts" by simp
  with 3 show ?case by (simp add: split_sep_append split_sep_no_sep)
qed

definition clean_segment :: "string \<Rightarrow> bool" where
  "clean_segment s = (s \<noteq> [] \<and> s \<noteq> ''.'' \<and> s \<noteq> ''..'' \<and> sep \<notin> set s)"

lemma foldl_normalize_clean:
  "list_all clean_segment segs \<Longrightarrow> foldl (normalize_step a) st segs = st @ segs"
  by (induction segs arbitrary: st) (auto simp: normalize_step_def clean_segment_def)

lemma normalize_step_clean:
  assumes "list_all clean_segment st" "sep \<notin> set seg"
  shows "list_all clean_segment (normalize_step False st seg)"
proof -
  have "list_all clean_segment (butlast st)"
    using assms(1) by (auto simp: list_all_iff dest: in_set_butlastD)
  with assms show ?thesis
    by (auto simp: normalize_step_def clean_segment_def)
qed

lemma foldl_normalize_stack:
  "list_all clean_segment st \<Longrightarrow> \<forall>s\<in>set segs. sep \<notin> set s \<Longrightarrow>
     list_all clean_segment (foldl (normalize_step False) st segs)"
  by (induction segs arbitrary: st) (auto intro: normalize_step_clean)

lemma assetsDir_shape:
  assumes "dirname \<noteq> []" "hd dirname = sep"
  shows "\<exists>st. list_all clean_segment st \<and>
           assetsDir (new_converter dirname) = sep # join_sep (st @ [''assets''])"
proof -
  let ?j = "dirname @ sep # ''..'' @ sep # ''assets''"
  let ?base = "foldl (normalize_step False) [] (split_sep dirname)"
  let ?st = "normalize_step False ?base ''..''"
  have st0: "list_all clean_segment ?base"
    using foldl_normalize_stack [of "[]" "split_sep dirname"] split_sep_segments by auto
  have "sep \<notin> set ''..''" by (simp add: sep_def)
  then have st: "list_all clean_segment ?st"
    using normalize_step_clean [OF st0, of "''..''"] by simp
  have joined: "join_sep (filter (\<lambda>a. a \<noteq> []) [dirname, ''..'', ''assets'']) = ?j"
    using assms(1) by simp
  have "split_sep (''..'' @ sep # ''assets'') = [''..'', ''assets'']"
    by (simp add: sep_def)
  then have split: "split_sep ?j = split_sep dirname @ [''..'', ''assets'']"
    using split_sep_append [of dirname "''..'' @ sep # ''assets''"] by simp
  have "foldl (normalize_step False) [] (split_sep ?j) = normalize_step False ?st ''assets''"
    unfolding split by simp
  also have "\<dots> = ?st @ [''assets'']"
    by (simp add: normalize_step_def)
  finally have ns: "normalizeString ?j False = join_sep (?st @ [''assets''])"
    by (simp add: normalizeString_def)
  have ne: "join_sep (?st @ [''assets'']) \<noteq> []"
    by (cases "?st = []") (simp_all add: join_sep_snoc)
  have hd: "hd ?j = sep" using assms by (cases dirname) auto
  have last: "last ?j \<noteq> sep" by (simp add: sep_def)
  have "normalize ?j = sep # join_sep (?st @ [''assets''])"
    using ns ne hd last by (simp add: normalize_def Let_def sep_def)
  then have "assetsDir (new_converter dirname) = sep # join_sep (?st @ [''assets''])"
    using joined by (simp add: new_converter_def path_join_def Let_def del: join_sep.simps)
  with st show ?thesis by blast
qed

lemma path_join_clean:
  assumes st: "list_all clean_segment st" and x: "clean_segment x"
    and A: "A = sep # join_sep (st @ [''assets''])"
  shows "path_join [A, x] = A @ sep # x"
proof -
  let ?L = "st @ [''assets'']"
  have L: "list_all clean_segment ?L" using st by (simp add: clean_segment_def sep_def)
  have Lx: "list_all clean_segment (?L @ [x])" using L x by simp
  have xne: "x \<noteq> []" using x by (simp add: clean_segment_def)
  have joined: "join_sep (filter (\<lambda>a. a \<noteq> []) [A, x]) = A @ sep # x"
    using A xne by simp
  have "split_sep (join_sep ?L) = ?L"
    by (rule split_join_sep) (use L in \<open>auto simp: list_all_iff clean_segment_def\<close>)
  then have split: "split_sep (A @ sep # x) = [] # ?L @ [x]"
    using x by (simp add: A split_sep_append split_sep_no_sep clean_segment_def)
  have "foldl (normalize_step False) [] (split_sep (A @ sep # x)) =
        foldl (normalize_step False) [] (?L @ [x])"
    unfolding split by (simp add: normalize_step_def)
  also have "\<dots> = ?L @ [x]"
    using foldl_normalize_clean [OF Lx, of False "[]"] by simp
  finally have "normalizeString (A @ sep # x) False = join_sep (?L @ [x])"
    by (simp add: normalizeString_def)
  also have "\<dots> = join_sep ?L @ sep # x"
    by (rule join_sep_snoc) simp
  finally have ns: "normalizeString (A @ sep # x) False = join_sep ?L @ sep # x" .
  have "last x \<in> set x" using xne by simp
  moreover have "sep \<notin> set x" using x by (simp add: clean_segment_def)
  ultimately have "last x \<noteq> sep" by auto
  moreover have "last (A @ sep # x) = last x" using xne by simp
  ultimately have last: "last (A @ sep # x) \<noteq> sep" by simp
  have "normalize (A @ sep # x) = sep # join_sep ?L @ sep # x"
    using ns last by (simp add: normalize_def Let_def A sep_def)
  with joined show ?thesis
    by (simp add: path_join_def Let_def A del: join_sep.simps)
qed

lemma basename_dir: "sep \<notin> set x \<Longrightarrow> x \<noteq> [] \<Longrightarrow> basename (d @ sep # x) = x"
proof -
  assume x: "sep \<notin> set x" "x \<noteq> []"
  then have "hd (rev x) \<noteq> sep" by (metis hd_rev last_in_set)
  then have dw: "dropWhile (\<lambda>c. c = sep) (rev x @ sep # rev d) = rev x @ sep # rev d"
    using x(2) by (cases "rev x") auto
  have "\<forall>c\<in>set (rev x). c \<noteq> sep" using x(1) by auto
  then have tw: "takeWhile (\<lambda>c. c \<noteq> sep) (rev x @ sep # rev d) = rev x"
    by (simp add: takeWhile_tail)
  have "rev (d @ sep # x) = rev x @ sep # rev d" by simp
  then show ?thesis unfolding basename_def using dw tw by simp
qed

lemma basename_plain: "sep \<notin> set x \<Longrightarrow> x \<noteq> [] \<Longrightarrow> basename x = x"
proof -
  assume x: "sep \<notin> set x" "x \<noteq> []"
  then have "hd (rev x) \<noteq> sep" by (metis hd_rev last_in_set)
  then have dw: "dropWhile (\<lambda>c. c = sep) (rev x) = rev x"
    using x(2) by (cases "rev x") auto
  have "\<forall>c\<in>set (rev x). c \<noteq> sep" using x(1) by auto
  then have tw: "takeWhile (\<lambda>c. c \<noteq> sep) (rev x) = rev x"
    by (simp only: takeWhile_eq_all_conv)
  show ?thesis unfolding basename_def dw tw by simp
qed

section \<open>trim\<close>

lemma dropWhile_all: "list_all P xs \<Longrightarrow> dropWhile P (xs @ ys) = dropWhile P ys"
  by (induction xs) auto

lemma dropWhile_not_all: "\<not> list_all P xs \<Longrightarrow> dropWhile P (xs @ ys) = dropWhile P xs @ ys"
  by (induction xs) auto

lemma trim_padded:
  assumes "list_all js_whitespace l" "p \<noteq> []" "\<not> js_whitespace (hd p)" "\<not> js_whitespace (last p)"
  shows "trim (l @ p @ y) = p @ rev (dropWhile js_whitespace (rev y))"
proof -
  have 1: "dropWhile js_whitespace (l @ p @ y) = p @ y"
    using assms by (cases p) (simp_all add: dropWhile_all)
  have 2: "dropWhile js_whitespace (rev y @ rev p) = dropWhile js_whitespace (rev y) @ rev p"
  proof (cases "list_all js_whitespace (rev y)")
    case True
    then have "dropWhile js_whitespace (rev y) = []" by (simp add: list_all_iff)
    moreover have "dropWhile js_whitespace (rev p) = rev p"
      using assms(2,4) by (cases "rev p") (auto simp: last_rev hd_rev)
    ultimately show ?thesis using True by (simp add: dropWhile_all)
  next
    case False
    then show ?thesis by (rule dropWhile_not_all)
  qed
  show ?thesis by (simp add: trim_def 1 2)
qed

lemma trimEnd_padded:
  assumes "list_all js_whitespace r" "x \<noteq> []" "\<not> js_whitespace (last x)"
  shows "rev (dropWhile js_whitespace (rev (x @ r))) = x"
proof -
  have "dropWhile js_whitespace (rev r @ rev x) = dropWhile js_whitespace (rev x)"
    using assms(1) by (simp add: dropWhile_all)
  also have "\<dots> = rev x"
    using assms(2,3) by (cases "rev x") (auto simp: last_rev hd_rev)
  finally show ?thesis by simp
qed

lemma replace_first_prefix: "p \<noteq> [] \<Longrightarrow> replace_first p [] (p @ y) = y"
  by (cases p) (simp_all add: startsWith_def)


section \<open>The asset resolver\<close>

lemma resolveImagePath_prefixed:
  assumes "list_all js_whitespace l"
  shows "resolveImagePath c (l @ ''./assets/'' @ y) =
           path_join [assetsDir c, rev (dropWhile js_whitespace (rev y))]"
    and "resolveImagePath c (l @ ''../assets/'' @ y) =
           path_join [assetsDir c, rev (dropWhile js_whitespace (rev y))]"
    and "resolveImagePath c (l @ ''assets/'' @ y) =
           path_join [assetsDir c, rev (dropWhile js_whitespace (rev y))]"
proof -
  let ?y = "rev (dropWhile js_whitespace (rev y))"
  have 1: "trim (l @ ''./assets/'' @ y) = ''./assets/'' @ ?y"
    by (rule trim_padded [OF assms]) (simp_all add: js_whitespace_def)
  have 2: "trim (l @ ''../assets/'' @ y) = ''../assets/'' @ ?y"
    by (rule trim_padded [OF assms]) (simp_all add: js_whitespace_def)
  have 3: "trim (l @ ''assets/'' @ y) = ''assets/'' @ ?y"
    by (rule trim_padded [OF assms]) (simp_all add: js_whitespace_def)
  have s1: "startsWith (''./assets/'' @ ?y) ''./assets/''"
    and s2: "\<not> startsWith (''../assets/'' @ ?y) ''./assets/''"
      "startsWith (''../assets/'' @ ?y) ''../assets/''"
    and s3: "\<not> startsWith (''assets/'' @ ?y) ''./assets/''"
      "\<not> startsWith (''assets/'' @ ?y) ''../assets/''"
      "startsWith (''assets/'' @ ?y) ''assets/''"
    by (simp_all add: startsWith_def)
  show "resolveImagePath c (l @ ''./assets/'' @ y) = path_join [assetsDir c, ?y]"
    unfolding resolveImagePath_def Let_def 1 using s1 replace_first_prefix [of "''./assets/''" ?y]
    by simp
  show "resolveImagePath c (l @ ''../assets/'' @ y) = path_join [assetsDir c, ?y]"
    unfolding resolveImagePath_def Let_def 2 using s2 replace_first_prefix [of "''../assets/''" ?y]
    by simp
  show "resolveImagePath c (l @ ''assets/'' @ y) = path_join [assetsDir c, ?y]"
    unfolding resolveImagePath_def Let_def 3 using s3 replace_first_prefix [of "''assets/''" ?y]
    by simp
qed

text \<open>
  C4. With the script in an absolute directory and \<open>x\<close> a file name (one path segment,
  not \<^verbatim>\<open>.\<close> or \<^verbatim>\<open>..\<close>), the three spellings \<^verbatim>\<open>./assets/x\<close>, \<^verbatim>\<open>../assets/x\<close> and
  \<^verbatim>\<open>assets/x\<close>, with any white space around them, resolve to the same absolute path: the
  assets directory, a separator and \<open>x\<close>. Any other src resolves to the assets directory
  joined with its base name only, so a directory part in front of \<open>x\<close> is discarded. The
  three spellings agree for every remainder \<open>y\<close>, and nothing is looked up in the file
  system: \<open>resolveImagePath\<close> does not take one.
\<close>

theorem resolveImagePath_assets:
  assumes dir: "dirname \<noteq> []" "hd dirname = sep"
    and x: "x \<noteq> []" "sep \<notin> set x" "x \<noteq> ''.''" "x \<noteq> ''..''" "\<not> js_whitespace (last x)"
    and ws: "list_all js_whitespace l" "list_all js_whitespace r"
  shows "(let c = new_converter dirname; target = assetsDir c @ ''/'' @ x in
            hd (assetsDir c) = sep \<and>
            resolveImagePath c (l @ ''./assets/'' @ x @ r) = target \<and>
            resolveImagePath c (l @ ''../assets/'' @ x @ r) = target \<and>
            resolveImagePath c (l @ ''assets/'' @ x @ r) = target \<and>
            (\<forall>src. \<not> startsWith (trim src) ''./assets/'' \<and>
                   \<not> startsWith (trim src) ''../assets/'' \<and>
                   \<not> startsWith (trim src) ''assets/'' \<and>
                   basename (trim src) = x
                   \<longrightarrow> resolveImagePath c src = target) \<and>
            (\<forall>d. basename (d @ ''/'' @ x) = x) \<and>
            (\<forall>y. resolveImagePath c (''./assets/'' @ y) = resolveImagePath c (''../assets/'' @ y) \<and>
                 resolveImagePath c (''../assets/'' @ y) = resolveImagePath c (''assets/'' @ y)))"
proof -
  let ?c = "new_converter dirname"
  from assetsDir_shape [OF dir] obtain st where
    st: "list_all clean_segment st" "assetsDir ?c = sep # join_sep (st @ [''assets''])"
    by blast
  have cx: "clean_segment x" using x by (simp add: clean_segment_def)
  have pj: "path_join [assetsDir ?c, x] = assetsDir ?c @ ''/'' @ x"
    using path_join_clean [OF st(1) cx st(2)] by (simp add: sep_def)
  have te: "rev (dropWhile js_whitespace (rev (x @ r))) = x"
    by (rule trimEnd_padded [OF ws(2) x(1) x(5)])
  have a: "resolveImagePath ?c (l @ ''./assets/'' @ x @ r) = assetsDir ?c @ ''/'' @ x"
    "resolveImagePath ?c (l @ ''../assets/'' @ x @ r) = assetsDir ?c @ ''/'' @ x"
    "resolveImagePath ?c (l @ ''assets/'' @ x @ r) = assetsDir ?c @ ''/'' @ x"
    using resolveImagePath_prefixed [OF ws(1), of ?c "x @ r"] te pj by simp_all
  have b: "resolveImagePath ?c src = assetsDir ?c @ ''/'' @ x"
    if "\<not> startsWith (trim src) ''./assets/''" "\<not> startsWith (trim src) ''../assets/''"
      "\<not> startsWith (trim src) ''assets/''" "basename (trim src) = x" for src
    using that pj by (simp add: resolveImagePath_def Let_def)
  have d: "basename (d @ ''/'' @ x) = x" for d
    using basename_dir [OF x(2) x(1), of d] by (simp add: sep_def)
  have e: "resolveImagePath ?c (''./assets/'' @ y) = resolveImagePath ?c (''../assets/'' @ y)"
    "resolveImagePath ?c (''../assets/'' @ y) = resolveImagePath ?c (''assets/'' @ y)" for y
    using resolveImagePath_prefixed [of "[]" ?c y] by simp_all
  have h: "hd (assetsDir ?c) = sep" using st(2) by simp
  from h a b d e show ?thesis unfolding Let_def by blast
qed

theorem resolveImagePath_assets_witness:
  "resolveImagePath (new_converter ''/w/B64'') ''  ./assets/x.png '' = ''/w/assets/x.png'' \<and>
   resolveImagePath (new_converter ''/w/B64'') ''  ../assets/x.png '' = ''/w/assets/x.png'' \<and>
   resolveImagePath (new_converter ''/w/B64'') ''  assets/x.png '' = ''/w/assets/x.png'' \<and>
   resolveImagePath (new_converter ''/w/B64'') ''sub/dir/x.png'' = ''/w/assets/x.png''"
proof -
  let ?c = "new_converter ''/w/B64''"
  have hyps: "''/w/B64'' \<noteq> []" "hd ''/w/B64'' = sep" "''x.png'' \<noteq> []" "sep \<notin> set ''x.png''"
    "''x.png'' \<noteq> ''.''" "''x.png'' \<noteq> ''..''" "\<not> js_whitespace (last ''x.png'')"
    "list_all js_whitespace ''  ''" "list_all js_whitespace '' ''"
    by (simp_all add: sep_def js_whitespace_def)
  have other: "\<not> startsWith (trim ''sub/dir/x.png'') ''./assets/''"
    "\<not> startsWith (trim ''sub/dir/x.png'') ''../assets/''"
    "\<not> startsWith (trim ''sub/dir/x.png'') ''assets/''"
    "basename (trim ''sub/dir/x.png'') = ''x.png''"
    by code_simp+
  have dir: "assetsDir ?c = ''/w/assets''" by code_simp
  note t = resolveImagePath_assets [OF hyps, unfolded Let_def]
  from t have p1: "resolveImagePath ?c (''  '' @ ''./assets/'' @ ''x.png'' @ '' '') =
      assetsDir ?c @ ''/'' @ ''x.png''" by blast
  from t have p2: "resolveImagePath ?c (''  '' @ ''../assets/'' @ ''x.png'' @ '' '') =
      assetsDir ?c @ ''/'' @ ''x.png''" by blast
  from t have p3: "resolveImagePath ?c (''  '' @ ''assets/'' @ ''x.png'' @ '' '') =
      assetsDir ?c @ ''/'' @ ''x.png''" by blast
  from t other have p4: "resolveImagePath ?c ''sub/dir/x.png'' =
      assetsDir ?c @ ''/'' @ ''x.png''" by blast
  from p1 p2 p3 p4 show ?thesis unfolding dir by simp
qed

section \<open>The tag rewriter\<close>

lemma scan_no_match: "match_tag tag (c # cs) = None \<Longrightarrow> scan tag (c # cs) = Lit c # scan tag cs"
  by simp

lemma match_tag_split:
  assumes "match_tag tag s = Some (b, v, a, rest)"
  shows "s = take (length s - length rest) s @ rest"
proof -
  from match_tag_decomp [OF assms] obtain m where "s = m @ rest" by auto
  then show ?thesis by auto
qed

lemma scan_match:
  assumes "match_tag tag s = Some (b, v, a, rest)"
  shows "scan tag s = Match (take (length s - length rest) s) b v a # scan tag rest"
proof (cases s)
  case Nil
  with match_tag_shorter [OF assms] show ?thesis by simp
next
  case (Cons c cs)
  with assms show ?thesis by simp
qed

lemma js_replace_Nil: "js_replace tag f [] st = ([], st)"
  by (simp add: js_replace_def)

lemma js_replace_no_match:
  "match_tag tag (c # cs) = None \<Longrightarrow>
     js_replace tag f (c # cs) st =
       (c # fst (js_replace tag f cs st), snd (js_replace tag f cs st))"
  by (simp add: js_replace_def split: prod.splits)

lemma js_replace_match:
  assumes "match_tag tag s = Some (b, v, a, rest)"
  shows "js_replace tag f s st =
           (fst (f (take (length s - length rest) s) b v a st) @
              fst (js_replace tag f rest (snd (f (take (length s - length rest) s) b v a st))),
            snd (js_replace tag f rest (snd (f (take (length s - length rest) s) b v a st))))"
  by (simp add: js_replace_def scan_match [OF assms] split: prod.splits)

text \<open>What the encoder returns depends on the file system only, and a callback changes
  nothing of the converter but its error list.\<close>

definition data_uri :: "filesystem \<Rightarrow> string \<Rightarrow> string option" where
  "data_uri fs p =
     (case map_of fs p of
        Some (File bytes) \<Rightarrow>
          Some (''data:'' @ mimeType (toLowerCase (extname p)) @ '';base64,'' @ base64 bytes)
      | _ \<Rightarrow> None)"

lemma imageToBase64_data_uri_eq: "fst (imageToBase64 fs conv p) = data_uri fs p"
  by (auto simp: imageToBase64_def data_uri_def existsSync_def readFileSync_def Let_def
      split: option.splits fnode.splits)

lemma imageToBase64_conv:
  "\<exists>es. snd (imageToBase64 fs conv p) = conv\<lparr>errors := errors conv @ es\<rparr>"
proof (cases "map_of fs p")
  case None
  then have "snd (imageToBase64 fs conv p) = conv\<lparr>errors := errors conv @ []\<rparr>"
    by (simp add: imageToBase64_def existsSync_def)
  then show ?thesis by blast
next
  case (Some n)
  show ?thesis
  proof (cases n)
    case (File bytes)
    with Some have "snd (imageToBase64 fs conv p) = conv\<lparr>errors := errors conv @ []\<rparr>"
      by (simp add: imageToBase64_def existsSync_def readFileSync_def)
    then show ?thesis by blast
  next
    case Dir
    with Some have "snd (imageToBase64 fs conv p) = conv\<lparr>errors := errors conv @ [(p, EISDIR)]\<rparr>"
      by (simp add: imageToBase64_def existsSync_def readFileSync_def)
    then show ?thesis by blast
  qed
qed

text \<open>The value a callback substitutes for a src, if any.\<close>

definition new_src :: "filesystem \<Rightarrow> converter \<Rightarrow> string \<Rightarrow> string option" where
  "new_src fs conv src =
     (if startsWith src ''data:'' then None
      else if toLowerCase (extname (resolveImagePath conv src)) \<notin> set (supportedExtensions conv)
      then None
      else data_uri fs (resolveImagePath conv src))"

lemma data_uri_not_Nil: "data_uri fs p = Some d \<Longrightarrow> d \<noteq> []"
  by (auto simp: data_uri_def split: option.splits fnode.splits)

text \<open>A data URI has no quote, no \<^verbatim>\<open>>\<close> and no white space in it.\<close>

lemma mimeType_plain:
  "list_all (\<lambda>c. \<not> is_quote c \<and> c \<noteq> CHR ''>'' \<and> \<not> js_whitespace c) (mimeType e)"
  by (simp add: mimeType_def is_quote_def js_whitespace_def)

lemma base64_plain:
  "list_all (\<lambda>c. \<not> is_quote c \<and> c \<noteq> CHR ''>'' \<and> \<not> js_whitespace c) (base64 bs)"
proof -
  have "list_all (\<lambda>c. \<not> is_quote c \<and> c \<noteq> CHR ''>'' \<and> \<not> js_whitespace c)
      (CHR ''='' # base64_alphabet)"
    by (simp add: base64_alphabet_def is_quote_def js_whitespace_def)
  with base64_chars [of bs] show ?thesis
    unfolding list_all_iff by auto
qed

lemma data_uri_plain:
  assumes "data_uri fs p = Some d"
  shows "d \<noteq> [] \<and> list_all (\<lambda>c. \<not> is_quote c \<and> c \<noteq> CHR ''>'' \<and> \<not> js_whitespace c) d \<and>
         startsWith d ''data:''"
proof -
  from assms obtain bytes where
    d: "d = ''data:'' @ mimeType (toLowerCase (extname p)) @ '';base64,'' @ base64 bytes"
    by (auto simp: data_uri_def split: option.splits fnode.splits)
  have "list_all (\<lambda>c. \<not> is_quote c \<and> c \<noteq> CHR ''>'' \<and> \<not> js_whitespace c) ''data:''"
    and "list_all (\<lambda>c. \<not> is_quote c \<and> c \<noteq> CHR ''>'' \<and> \<not> js_whitespace c) '';base64,''"
    by (simp_all add: is_quote_def js_whitespace_def)
  with mimeType_plain base64_plain
  have "list_all (\<lambda>c. \<not> is_quote c \<and> c \<noteq> CHR ''>'' \<and> \<not> js_whitespace c) d"
    unfolding d list_all_append by blast
  moreover have "startsWith d ''data:''" unfolding d by (simp add: startsWith_def)
  moreover have "d \<noteq> []" unfolding d by simp
  ultimately show ?thesis by blast
qed

lemma tag_callback_result:
  "\<exists>es. tag_callback fs tag m b v a (modified, conv) =
     (case new_src fs conv v of
        None \<Rightarrow> (m, modified, conv\<lparr>errors := errors conv @ es\<rparr>)
      | Some d \<Rightarrow> (''<'' @ tag @ b @ '' src=\"'' @ d @ ''\"'' @ a @ ''>'', True,
                   conv\<lparr>errors := errors conv @ es\<rparr>))"
proof -
  let ?p = "resolveImagePath conv v"
  obtain es where es: "snd (imageToBase64 fs conv ?p) = conv\<lparr>errors := errors conv @ es\<rparr>"
    using imageToBase64_conv by blast
  have same: "conv = conv\<lparr>errors := errors conv @ []\<rparr>" by simp
  show ?thesis
  proof (cases "startsWith v ''data:'' \<or>
      toLowerCase (extname ?p) \<notin> set (supportedExtensions conv)")
    case True
    then have "tag_callback fs tag m b v a (modified, conv) = (m, modified, conv)"
      and "new_src fs conv v = None"
      by (auto simp: tag_callback_def new_src_def Let_def)
    with same show ?thesis by (metis option.simps(4))
  next
    case False
    then have ns: "new_src fs conv v = data_uri fs ?p" by (simp add: new_src_def)
    obtain r c' where r: "imageToBase64 fs conv ?p = (r, c')" by (cases "imageToBase64 fs conv ?p")
    with es imageToBase64_data_uri_eq [of fs conv ?p]
    have rc: "r = data_uri fs ?p" "c' = conv\<lparr>errors := errors conv @ es\<rparr>" by simp_all
    show ?thesis
    proof (cases "data_uri fs ?p")
      case None
      with False r rc ns show ?thesis
        by (auto simp: tag_callback_def Let_def)
    next
      case (Some d)
      with data_uri_not_Nil have "d \<noteq> []" by blast
      with Some False r rc ns show ?thesis
        by (auto simp: tag_callback_def Let_def)
    qed
  qed
qed


lemma new_src_errors [simp]: "new_src fs (conv\<lparr>errors := es\<rparr>) = new_src fs conv"
  by (rule ext) (simp add: new_src_def resolveImagePath_def Let_def)

text \<open>The text a pass produces, without the state: each segment of the scan is rendered
  on its own.\<close>

fun render :: "(string \<Rightarrow> string option) \<Rightarrow> string \<Rightarrow> segment \<Rightarrow> string" where
  "render k tag (Lit c) = [c]"
| "render k tag (Match m b v a) =
     (case k v of
        None \<Rightarrow> m
      | Some d \<Rightarrow> ''<'' @ tag @ b @ '' src=\"'' @ d @ ''\"'' @ a @ ''>'')"

fun converted :: "(string \<Rightarrow> string option) \<Rightarrow> segment \<Rightarrow> bool" where
  "converted k (Lit c) = False"
| "converted k (Match m b v a) = (k v \<noteq> None)"

definition rewrite_text :: "(string \<Rightarrow> string option) \<Rightarrow> string \<Rightarrow> string \<Rightarrow> string" where
  "rewrite_text k tag s = concat (map (render k tag) (scan tag s))"

definition substitutes :: "(string \<Rightarrow> string option) \<Rightarrow> string \<Rightarrow> string \<Rightarrow> bool" where
  "substitutes k tag s = list_ex (converted k) (scan tag s)"

lemma tag_callback_render:
  "\<exists>es. tag_callback fs tag m b v a (modified, conv) =
     (render (new_src fs conv) tag (Match m b v a),
      modified \<or> converted (new_src fs conv) (Match m b v a),
      conv\<lparr>errors := errors conv @ es\<rparr>)"
proof -
  from tag_callback_result [of fs tag m b v a modified conv] obtain es where
    r: "tag_callback fs tag m b v a (modified, conv) =
     (case new_src fs conv v of
        None \<Rightarrow> (m, modified, conv\<lparr>errors := errors conv @ es\<rparr>)
      | Some d \<Rightarrow> (''<'' @ tag @ b @ '' src=\"'' @ d @ ''\"'' @ a @ ''>'', True,
                   conv\<lparr>errors := errors conv @ es\<rparr>))" by blast
  have "tag_callback fs tag m b v a (modified, conv) =
     (render (new_src fs conv) tag (Match m b v a),
      modified \<or> converted (new_src fs conv) (Match m b v a),
      conv\<lparr>errors := errors conv @ es\<rparr>)"
    unfolding r by (cases "new_src fs conv v") simp_all
  then show ?thesis by blast
qed

lemma replace_segments_callback:
  "\<exists>es. replace_segments (tag_callback fs tag) segs (modified, conv) =
     (concat (map (render (new_src fs conv) tag) segs),
      modified \<or> list_ex (converted (new_src fs conv)) segs,
      conv\<lparr>errors := errors conv @ es\<rparr>)"
proof (induction segs arbitrary: modified conv)
  case Nil
  have "conv = conv\<lparr>errors := errors conv @ []\<rparr>" by simp
  then have "replace_segments (tag_callback fs tag) [] (modified, conv) =
     (concat (map (render (new_src fs conv) tag) []),
      modified \<or> list_ex (converted (new_src fs conv)) [],
      conv\<lparr>errors := errors conv @ []\<rparr>)" by simp
  then show ?case by blast
next
  case (Cons seg segs)
  show ?case
  proof (cases seg)
    case (Lit c)
    from Cons.IH [of modified conv] obtain es where
      "replace_segments (tag_callback fs tag) segs (modified, conv) =
         (concat (map (render (new_src fs conv) tag) segs),
          modified \<or> list_ex (converted (new_src fs conv)) segs,
          conv\<lparr>errors := errors conv @ es\<rparr>)" by blast
    with Lit have "replace_segments (tag_callback fs tag) (seg # segs) (modified, conv) =
         (concat (map (render (new_src fs conv) tag) (seg # segs)),
          modified \<or> list_ex (converted (new_src fs conv)) (seg # segs),
          conv\<lparr>errors := errors conv @ es\<rparr>)" by simp
    then show ?thesis by blast
  next
    case (Match m b v a)
    from tag_callback_render [of fs tag m b v a modified conv] obtain es1 where
      cb: "tag_callback fs tag m b v a (modified, conv) =
        (render (new_src fs conv) tag seg, modified \<or> converted (new_src fs conv) seg,
         conv\<lparr>errors := errors conv @ es1\<rparr>)"
      unfolding Match by blast
    let ?c1 = "conv\<lparr>errors := errors conv @ es1\<rparr>"
    let ?m1 = "modified \<or> converted (new_src fs conv) seg"
    from Cons.IH [of ?m1 ?c1] obtain es2 where
      "replace_segments (tag_callback fs tag) segs (?m1, ?c1) =
         (concat (map (render (new_src fs conv) tag) segs),
          ?m1 \<or> list_ex (converted (new_src fs conv)) segs,
          ?c1\<lparr>errors := errors ?c1 @ es2\<rparr>)" by auto
    with cb Match have "replace_segments (tag_callback fs tag) (seg # segs) (modified, conv) =
         (concat (map (render (new_src fs conv) tag) (seg # segs)),
          modified \<or> list_ex (converted (new_src fs conv)) (seg # segs),
          conv\<lparr>errors := errors conv @ (es1 @ es2)\<rparr>)" by auto
    then show ?thesis by blast
  qed
qed

lemma js_replace_callback:
  "\<exists>es. js_replace tag (tag_callback fs tag) s (modified, conv) =
     (rewrite_text (new_src fs conv) tag s, modified \<or> substitutes (new_src fs conv) tag s,
      conv\<lparr>errors := errors conv @ es\<rparr>)"
  unfolding js_replace_def rewrite_text_def substitutes_def by (rule replace_segments_callback)

lemma rewrite_html_pure:
  "\<exists>es. rewrite_html fs conv html =
     (let k = new_src fs conv;
          h1 = rewrite_text k ''img'' html;
          h2 = rewrite_text k ''video'' h1;
          h3 = rewrite_text k ''source'' h2
      in (h3, substitutes k ''img'' html \<or> substitutes k ''video'' h1 \<or> substitutes k ''source'' h2,
          conv\<lparr>errors := errors conv @ es\<rparr>))"
proof -
  let ?k = "new_src fs conv"
  let ?h1 = "rewrite_text ?k ''img'' html"
  let ?h2 = "rewrite_text ?k ''video'' ?h1"
  let ?h3 = "rewrite_text ?k ''source'' ?h2"
  let ?m1 = "substitutes ?k ''img'' html"
  let ?m2 = "?m1 \<or> substitutes ?k ''video'' ?h1"
  let ?m3 = "?m2 \<or> substitutes ?k ''source'' ?h2"
  from js_replace_callback [of "''img''" fs html False conv] obtain es1 where
    1: "js_replace ''img'' (tag_callback fs ''img'') html (False, conv) =
      (?h1, ?m1, conv\<lparr>errors := errors conv @ es1\<rparr>)" by auto
  from js_replace_callback [of "''video''" fs ?h1 ?m1 "conv\<lparr>errors := errors conv @ es1\<rparr>"]
  obtain es2 where
    2: "js_replace ''video'' (tag_callback fs ''video'') ?h1
          (?m1, conv\<lparr>errors := errors conv @ es1\<rparr>) =
      (?h2, ?m2, conv\<lparr>errors := errors conv @ es1 @ es2\<rparr>)" by auto
  from js_replace_callback [of "''source''" fs ?h2 ?m2 "conv\<lparr>errors := errors conv @ es1 @ es2\<rparr>"]
  obtain es3 where
    3: "js_replace ''source'' (tag_callback fs ''source'') ?h2
          (?m2, conv\<lparr>errors := errors conv @ es1 @ es2\<rparr>) =
      (?h3, ?m3, conv\<lparr>errors := errors conv @ es1 @ es2 @ es3\<rparr>)" by auto
  have "rewrite_html fs conv html = (?h3, ?m3, conv\<lparr>errors := errors conv @ (es1 @ es2 @ es3)\<rparr>)"
    by (simp add: rewrite_html_def 1 2 3)
  then have "rewrite_html fs conv html =
     (let k = new_src fs conv;
          h1 = rewrite_text k ''img'' html;
          h2 = rewrite_text k ''video'' h1;
          h3 = rewrite_text k ''source'' h2
      in (h3, substitutes k ''img'' html \<or> substitutes k ''video'' h1 \<or> substitutes k ''source'' h2,
          conv\<lparr>errors := errors conv @ (es1 @ es2 @ es3)\<rparr>))"
    by (simp add: Let_def disj_assoc)
  then show ?thesis by (rule exI)
qed

lemma rewrite_text_Nil [simp]: "rewrite_text k tag [] = []"
  by (simp add: rewrite_text_def)

lemma rewrite_text_no_match:
  "match_tag tag (c # cs) = None \<Longrightarrow> rewrite_text k tag (c # cs) = c # rewrite_text k tag cs"
  by (simp add: rewrite_text_def)

lemma rewrite_text_match:
  "match_tag tag s = Some (b, v, a, rest) \<Longrightarrow>
     rewrite_text k tag s =
       render k tag (Match (take (length s - length rest) s) b v a) @ rewrite_text k tag rest"
  by (simp add: rewrite_text_def scan_match)

lemma substitutes_Nil [simp]: "\<not> substitutes k tag []"
  by (simp add: substitutes_def)

lemma substitutes_no_match:
  "match_tag tag (c # cs) = None \<Longrightarrow> substitutes k tag (c # cs) = substitutes k tag cs"
  by (simp add: substitutes_def)

lemma substitutes_match:
  "match_tag tag s = Some (b, v, a, rest) \<Longrightarrow>
     substitutes k tag s = (k v \<noteq> None \<or> substitutes k tag rest)"
  by (simp add: substitutes_def scan_match)

section \<open>What a pass may change\<close>

text \<open>
  \<open>src_rewritten D tag s s'\<close>: the text \<open>s'\<close> is \<open>s\<close> in which some tags with a src
  attribute have been written anew. Such a tag is the tag name \<open>t\<close> after \<^verbatim>\<open><\<close>, a text
  \<open>b\<close> without \<^verbatim>\<open>>\<close>, the attribute (a white space character, \<^verbatim>\<open>src=\<close>, a quote, the value
  \<open>v\<close>, which is not empty and has no quote in it, and a quote), a text \<open>a\<close> without
  \<^verbatim>\<open>>\<close>, and \<^verbatim>\<open>>\<close>. The texts \<open>b\<close> and \<open>a\<close> are kept as they are, in their places; the tag
  name and \<^verbatim>\<open>src=\<close> are in lower case, one space stands before \<^verbatim>\<open>src\<close>, and the new value
  \<open>d\<close>, related by \<open>D\<close> to the old value \<open>v\<close>, is in double quotes. Every character
  outside these tags is kept.
\<close>

inductive src_rewritten :: "(string \<Rightarrow> string \<Rightarrow> bool) \<Rightarrow> string \<Rightarrow> string \<Rightarrow> string \<Rightarrow> bool"
  for D :: "string \<Rightarrow> string \<Rightarrow> bool" and tag :: string where
  Done: "src_rewritten D tag [] []"
| Keep: "src_rewritten D tag s s' \<Longrightarrow> src_rewritten D tag (c # s) (c # s')"
| Src: "src_rewritten D tag s s' \<Longrightarrow>
        map canonicalize t = map canonicalize (CHR ''<'' # tag) \<Longrightarrow>
        list_all (\<lambda>c. c \<noteq> CHR ''>'') b \<Longrightarrow>
        js_whitespace w \<Longrightarrow> map canonicalize kw = map canonicalize ''src='' \<Longrightarrow>
        is_quote q1 \<Longrightarrow> v \<noteq> [] \<Longrightarrow> list_all (\<lambda>c. \<not> is_quote c) v \<Longrightarrow> is_quote q2 \<Longrightarrow>
        list_all (\<lambda>c. c \<noteq> CHR ''>'') a \<Longrightarrow> D v d \<Longrightarrow>
        src_rewritten D tag
          (t @ b @ w # kw @ q1 # v @ q2 # a @ CHR ''>'' # s)
          (CHR ''<'' # tag @ b @ '' src=\"'' @ d @ ''\"'' @ a @ CHR ''>'' # s')"

lemma src_rewritten_prefix:
  "src_rewritten D tag s s' \<Longrightarrow> src_rewritten D tag (m @ s) (m @ s')"
  by (induction m) (auto intro: src_rewritten.Keep)

lemma rewrite_text_src_rewritten:
  "src_rewritten (\<lambda>v d. k v = Some d) tag s (rewrite_text k tag s)"
proof (induction "length s" arbitrary: s rule: less_induct)
  case less
  show ?case
  proof (cases s)
    case Nil
    then show ?thesis by (simp add: src_rewritten.Done)
  next
    case (Cons c cs)
    show ?thesis
    proof (cases "match_tag tag s")
      case None
      with Cons have "rewrite_text k tag s = c # rewrite_text k tag cs"
        by (simp add: rewrite_text_no_match)
      moreover have "src_rewritten (\<lambda>v d. k v = Some d) tag cs (rewrite_text k tag cs)"
        using less [of cs] Cons by simp
      ultimately show ?thesis using Cons by (simp add: src_rewritten.Keep)
    next
      case (Some r)
      obtain b v a rest where r: "r = (b, v, a, rest)" by (cases r)
      with Some have m: "match_tag tag s = Some (b, v, a, rest)" by simp
      let ?m = "take (length s - length rest) s"
      have IH: "src_rewritten (\<lambda>v d. k v = Some d) tag rest (rewrite_text k tag rest)"
        using less [of rest] match_tag_shorter [OF m] by simp
      have rt: "rewrite_text k tag s = render k tag (Match ?m b v a) @ rewrite_text k tag rest"
        by (rule rewrite_text_match [OF m])
      show ?thesis
      proof (cases "k v")
        case None
        with rt have "rewrite_text k tag s = ?m @ rewrite_text k tag rest" by simp
        moreover have "src_rewritten (\<lambda>v d. k v = Some d) tag (?m @ rest)
            (?m @ rewrite_text k tag rest)"
          by (rule src_rewritten_prefix [OF IH])
        ultimately show ?thesis using match_tag_split [OF m] by simp
      next
        case (Some d)
        from match_tag_decomp [OF m] obtain t w kw q1 q2 where
          s: "s = t @ b @ w # kw @ q1 # v @ q2 # a @ CHR ''>'' # rest"
          and t: "map canonicalize t = map canonicalize (CHR ''<'' # tag)"
          and b: "list_all (\<lambda>c. c \<noteq> CHR ''>'') b"
          and w: "js_whitespace w"
          and kw: "map canonicalize kw = map canonicalize ''src=''"
          and q: "is_quote q1" "is_quote q2"
          and v: "v \<noteq> []" "list_all (\<lambda>c. \<not> is_quote c) v"
          and a: "list_all (\<lambda>c. c \<noteq> CHR ''>'') a"
          by blast
        have "src_rewritten (\<lambda>v d. k v = Some d) tag
            (t @ b @ w # kw @ q1 # v @ q2 # a @ CHR ''>'' # rest)
            (CHR ''<'' # tag @ b @ '' src=\"'' @ d @ ''\"'' @ a @ CHR ''>'' # rewrite_text k tag rest)"
          using IH t b w kw q(1) v q(2) a Some by (rule src_rewritten.Src)
        moreover have "rewrite_text k tag s =
            CHR ''<'' # tag @ b @ '' src=\"'' @ d @ ''\"'' @ a @ CHR ''>'' # rewrite_text k tag rest"
          using rt Some by simp
        ultimately show ?thesis using s by simp
      qed
    qed
  qed
qed

lemma new_src_Some:
  "new_src fs conv v = Some d \<Longrightarrow>
     \<not> startsWith v ''data:'' \<and> fst (imageToBase64 fs conv (resolveImagePath conv v)) = Some d"
  by (auto simp: new_src_def imageToBase64_data_uri_eq split: if_splits)

lemma src_rewritten_mono:
  "src_rewritten D tag s s' \<Longrightarrow> (\<And>v d. D v d \<Longrightarrow> E v d) \<Longrightarrow> src_rewritten E tag s s'"
proof (induction rule: src_rewritten.induct)
  case Done
  show ?case by (rule src_rewritten.Done)
next
  case (Keep s s' c)
  then show ?case by (simp add: src_rewritten.Keep)
next
  case (Src s s' t b w kw q1 v q2 a d)
  from Src.IH Src.prems have "src_rewritten E tag s s'" by simp
  moreover from Src.hyps Src.prems have "E v d" by simp
  ultimately show ?case using Src.hyps by (intro src_rewritten.Src)
qed

text \<open>The relation keeps the number of quote characters of a text, when the new values
  have no quotes: a tag that is written anew keeps what stood before and after the
  attribute, and gets two quotes for the two it had around the value.\<close>

lemma canonicalize_quote: "is_quote (canonicalize c) = is_quote c"
proof (cases "map_of (zip lower_letters upper_letters) c")
  case None
  then show ?thesis by (simp add: canonicalize_def)
next
  case (Some u)
  then have "(c, u) \<in> set (zip lower_letters upper_letters)" by (auto dest: map_of_SomeD)
  then have "c \<in> set lower_letters" "u \<in> set upper_letters"
    by (auto dest: set_zip_leftD set_zip_rightD)
  moreover have "list_all (\<lambda>x. \<not> is_quote x) (lower_letters @ upper_letters)" by code_simp
  ultimately have "\<not> is_quote c" "\<not> is_quote u" unfolding list_all_iff by auto
  with Some show ?thesis by (simp add: canonicalize_def)
qed

lemma canonical_quotes:
  "map canonicalize t = map canonicalize p \<Longrightarrow>
     length (filter is_quote t) = length (filter is_quote p)"
proof (induction t arbitrary: p)
  case Nil
  then show ?case by simp
next
  case (Cons c t)
  then obtain d p' where p: "p = d # p'" by (cases p) auto
  with Cons.prems have "canonicalize c = canonicalize d" "map canonicalize t = map canonicalize p'"
    by auto
  with Cons.IH [of p'] canonicalize_quote [of c] canonicalize_quote [of d] p show ?case by simp
qed

lemma src_rewritten_quotes:
  assumes "src_rewritten D tag s s'" and "\<And>v d. D v d \<Longrightarrow> list_all (\<lambda>c. \<not> is_quote c) d"
  shows "length (filter is_quote s') = length (filter is_quote s)"
  using assms
proof (induction rule: src_rewritten.induct)
  case Done
  show ?case by simp
next
  case (Keep s s' c)
  then show ?case by simp
next
  case (Src s s' t b w kw q1 v q2 a d)
  define cq where "cq = (\<lambda>s. length (filter is_quote s))"
  have app: "cq (x @ y) = cq x + cq y" for x y by (simp add: cq_def)
  have gt: "cq (CHR ''>'' # y) = cq y" for y by (simp add: cq_def is_quote_def)
  from Src.hyps Src.prems have "filter is_quote d = []"
    by (simp add: list_all_iff filter_empty_conv)
  define new where "new = '' src=\"'' @ d @ ''\"''"
  define old where "old = w # kw @ q1 # v @ [q2]"
  have n: "cq new = 2" by (simp add: cq_def new_def is_quote_def \<open>filter is_quote d = []\<close>)
  from Src.hyps have "filter is_quote v = []"
    by (simp add: list_all_iff filter_empty_conv)
  moreover from Src.hyps have "\<not> is_quote w"
    by (auto simp: is_quote_def js_whitespace_def)
  moreover from canonical_quotes [OF Src.hyps(5)] have "filter is_quote kw = []"
    by (simp add: is_quote_def)
  moreover from Src.hyps have "is_quote q1" "is_quote q2" by simp_all
  ultimately have o: "cq old = 2" by (simp add: cq_def old_def)
  from canonical_quotes [OF Src.hyps(2)] have t: "cq t = cq (CHR ''<'' # tag)"
    by (simp add: cq_def)
  from Src.IH Src.prems have IH: "cq s' = cq s" by (simp add: cq_def)
  have "cq ((CHR ''<'' # tag) @ b @ new @ a @ CHR ''>'' # s') =
      cq (t @ b @ old @ a @ CHR ''>'' # s)"
    by (simp only: app gt n o t IH)
  then show ?case by (simp add: cq_def new_def old_def)
qed

text \<open>
  C1 (as amended). A pass, and the three passes of \<open>rewrite_html\<close> one after the other,
  change a text only inside matched tags whose src value is replaced: of such a tag the
  text captured before the src attribute and the text captured after it are kept
  character for character, and so is every character outside these tags. The attribute
  itself is written anew: one space, \<^verbatim>\<open>src=\<close> in lower case and the data URI of the
  resolved file in double quotes, after the tag name in lower case. The original quote
  characters, the white space before \<^verbatim>\<open>src\<close> and the letter case of the tag name and of
  \<^verbatim>\<open>src\<close> are not kept.
\<close>

theorem rewrite_changes_src_only:
  "(let D = (\<lambda>v d. \<not> startsWith v ''data:'' \<and>
               fst (imageToBase64 fs conv (resolveImagePath conv v)) = Some d)
    in src_rewritten D tag html (fst (js_replace tag (tag_callback fs tag) html (modified, conv))) \<and>
       (\<exists>h1 h2. src_rewritten D ''img'' html h1 \<and> src_rewritten D ''video'' h1 h2 \<and>
                 src_rewritten D ''source'' h2 (fst (rewrite_html fs conv html))))"
proof -
  let ?k = "new_src fs conv"
  let ?D = "\<lambda>v d. \<not> startsWith v ''data:'' \<and>
               fst (imageToBase64 fs conv (resolveImagePath conv v)) = Some d"
  have pass: "src_rewritten ?D t s (rewrite_text ?k t s)" for t s
    by (rule src_rewritten_mono [OF rewrite_text_src_rewritten]) (rule new_src_Some)
  from js_replace_callback [of tag fs html modified conv]
  have 1: "fst (js_replace tag (tag_callback fs tag) html (modified, conv)) = rewrite_text ?k tag html"
    by auto
  from rewrite_html_pure [of fs conv html]
  have 2: "fst (rewrite_html fs conv html) =
      rewrite_text ?k ''source'' (rewrite_text ?k ''video'' (rewrite_text ?k ''img'' html))"
    by (auto simp: Let_def)
  have "src_rewritten ?D tag html (fst (js_replace tag (tag_callback fs tag) html (modified, conv)))"
    unfolding 1 by (rule pass)
  moreover have "\<exists>h1 h2. src_rewritten ?D ''img'' html h1 \<and> src_rewritten ?D ''video'' h1 h2 \<and>
                 src_rewritten ?D ''source'' h2 (fst (rewrite_html fs conv html))"
    unfolding 2 using pass by blast
  ultimately show ?thesis unfolding Let_def by blast
qed

text \<open>A directory with one asset, \<^verbatim>\<open>a.png\<close>, of three bytes.\<close>

definition fs_one_asset :: filesystem where
  "fs_one_asset = [(''/w/B64'', Dir), (''/w/assets'', Dir), (''/w/assets/a.png'', File ''abc''),
     (''/w/B64/index.html'', File ''<img src=\"missing.png\"><img src=\"a.png\">'')]"

theorem rewrite_changes_src_only_witness:
  "src_rewritten
     (\<lambda>v d. \<not> startsWith v ''data:'' \<and>
        fst (imageToBase64 fs_one_asset (new_converter ''/w/B64'') (resolveImagePath (new_converter ''/w/B64'') v)) = Some d)
     ''img''
     ''<p><IMG alt='x' SRC='a.png' id=i></p>''
     ''<p><img alt='x' src=\"data:image/png;base64,YWJj\" id=i></p>'' \<and>
   \<not> src_rewritten
     (\<lambda>v d. \<not> startsWith v ''data:'' \<and>
        fst (imageToBase64 fs_one_asset (new_converter ''/w/B64'') (resolveImagePath (new_converter ''/w/B64'') v)) = Some d)
     ''img''
     ''<p><IMG alt='x' SRC='a.png' id=i></p>''
     ''<p><img src=\"data:image/png;base64,YWJj\"></p>''"
proof -
  let ?D = "\<lambda>v d. \<not> startsWith v ''data:'' \<and>
        fst (imageToBase64 fs_one_asset (new_converter ''/w/B64'') (resolveImagePath (new_converter ''/w/B64'') v)) = Some d"
  have "fst (js_replace ''img'' (tag_callback fs_one_asset ''img'')
      ''<p><IMG alt='x' SRC='a.png' id=i></p>'' (False, new_converter ''/w/B64'')) =
      ''<p><img alt='x' src=\"data:image/png;base64,YWJj\" id=i></p>''"
    by code_simp
  with rewrite_changes_src_only [of fs_one_asset "new_converter ''/w/B64''" "''img''"
      "''<p><IMG alt='x' SRC='a.png' id=i></p>''" False]
  have kept: "src_rewritten ?D ''img'' ''<p><IMG alt='x' SRC='a.png' id=i></p>''
     ''<p><img alt='x' src=\"data:image/png;base64,YWJj\" id=i></p>''"
    unfolding Let_def by simp
  have plain: "list_all (\<lambda>c. \<not> is_quote c) d" if "?D v d" for v d
  proof -
    from that have "data_uri fs_one_asset (resolveImagePath (new_converter ''/w/B64'') v) = Some d"
      by (simp add: imageToBase64_data_uri_eq)
    from data_uri_plain [OF this] show ?thesis by (simp add: list_all_iff)
  qed
  have dropped: "\<not> src_rewritten ?D ''img'' ''<p><IMG alt='x' SRC='a.png' id=i></p>''
     ''<p><img src=\"data:image/png;base64,YWJj\"></p>''"
  proof
    assume "src_rewritten ?D ''img'' ''<p><IMG alt='x' SRC='a.png' id=i></p>''
     ''<p><img src=\"data:image/png;base64,YWJj\"></p>''"
    from src_rewritten_quotes [OF this plain]
    show False by (simp add: is_quote_def)
  qed
  from kept dropped show ?thesis by blast
qed

theorem quoting_not_preserved:
  "fst (rewrite_html fs_one_asset (new_converter ''/w/B64'') ''<img src='a.png'>'') =
     ''<img src=\"data:image/png;base64,YWJj\">'' \<and>
   fst (rewrite_html fs_one_asset (new_converter ''/w/B64'') ''<img src='a.png'>'') \<noteq>
     ''<img src='data:image/png;base64,YWJj'>''"
  by code_simp

section \<open>Tags whose src value is empty\<close>

text \<open>
  A src candidate is what the expression reads before the value: a white space
  character, \<^verbatim>\<open>src=\<close> in any letter case, and a quote. \<open>src_candidate s\<close> is the text
  after a candidate at the start of \<open>s\<close>.
\<close>

definition src_candidate :: "string \<Rightarrow> string option" where
  "src_candidate s =
     (case s of
        [] \<Rightarrow> None
      | w # cs \<Rightarrow>
          if js_whitespace w then
            (case match_literal ''src='' cs of
               None \<Rightarrow> None
             | Some [] \<Rightarrow> None
             | Some (q # r) \<Rightarrow> if is_quote q then Some r else None)
          else None)"

text \<open>Every src candidate of the text is followed at once by a quote: its value is empty.\<close>

fun empty_values :: "string \<Rightarrow> bool" where
  "empty_values [] = True"
| "empty_values (c # cs) =
     ((case src_candidate (c # cs) of
         None \<Rightarrow> True
       | Some [] \<Rightarrow> False
       | Some (q # r) \<Rightarrow> is_quote q) \<and> empty_values cs)"

lemma src_attribute_candidate:
  "src_attribute s =
     (case src_candidate s of
        None \<Rightarrow> None
      | Some r \<Rightarrow> greedy_plus (\<lambda>c. \<not> is_quote c) closing_quote r)"
  by (auto simp: src_attribute_def src_candidate_def split: list.splits option.splits)

lemma empty_values_suffix: "empty_values (p @ s) \<Longrightarrow> empty_values s"
  by (induction p) auto

lemma match_literal_append:
  "map canonicalize k = map canonicalize p \<Longrightarrow> match_literal p (k @ y) = Some y"
proof (induction p arbitrary: k)
  case Nil
  then show ?case by simp
next
  case (Cons c p)
  then obtain d k' where "k = d # k'" by (cases k) auto
  with Cons show ?case by auto
qed

lemma canonicalize_gt: "canonicalize p = CHR ''>'' \<Longrightarrow> p = CHR ''>''"
proof -
  assume a: "canonicalize p = CHR ''>''"
  show ?thesis
  proof (cases "map_of (zip lower_letters upper_letters) p")
    case None
    with a show ?thesis by (simp add: canonicalize_def)
  next
    case (Some u)
    then have "u \<in> set upper_letters" by (auto dest!: map_of_SomeD set_zip_rightD)
    moreover from a Some have "u = CHR ''>''" by (simp add: canonicalize_def)
    ultimately show ?thesis by (simp add: upper_letters_def)
  qed
qed

lemma canonical_no_gt:
  "map canonicalize t = map canonicalize p \<Longrightarrow> CHR ''>'' \<notin> set p \<Longrightarrow> CHR ''>'' \<notin> set t"
proof (induction t arbitrary: p)
  case Nil
  then show ?case by simp
next
  case (Cons c t)
  then obtain d p' where p: "p = d # p'" by (cases p) auto
  with Cons.prems have "canonicalize c = canonicalize d" "map canonicalize t = map canonicalize p'"
    "d \<noteq> CHR ''>''" "CHR ''>'' \<notin> set p'" by auto
  moreover have "canonicalize CHR ''>'' = CHR ''>''"
    by (simp add: canonicalize_def lower_letters_def upper_letters_def)
  ultimately show ?case using Cons.IH [of p'] canonicalize_gt [of d] by auto
qed

lemma not_quote_gt: "\<not> is_quote (CHR ''>'')" "\<not> js_whitespace (CHR ''>'')"
  by (simp_all add: is_quote_def js_whitespace_def)

lemma match_tag_empty_values:
  assumes x: "CHR ''>'' \<notin> set x" and e: "empty_values (x @ ''>'')" and tag: "CHR ''>'' \<notin> set tag"
  shows "match_tag tag (x @ CHR ''>'' # rest) = None"
proof (rule ccontr)
  assume "match_tag tag (x @ CHR ''>'' # rest) \<noteq> None"
  then obtain b v a r where m: "match_tag tag (x @ CHR ''>'' # rest) = Some (b, v, a, r)"
    by (cases "match_tag tag (x @ CHR ''>'' # rest)") auto
  from match_tag_decomp [OF m] obtain t w kw q1 q2 where
    s: "x @ CHR ''>'' # rest = t @ b @ w # kw @ q1 # v @ q2 # a @ CHR ''>'' # r"
    and t: "map canonicalize t = map canonicalize (CHR ''<'' # tag)"
    and b: "list_all (\<lambda>c. c \<noteq> CHR ''>'') b"
    and w: "js_whitespace w"
    and kw: "map canonicalize kw = map canonicalize ''src=''"
    and q: "is_quote q1" "is_quote q2"
    and v: "v \<noteq> []" "list_all (\<lambda>c. \<not> is_quote c) v"
    by blast
  let ?P = "t @ b @ w # kw @ [q1]"
  have "CHR ''>'' \<notin> set t" using canonical_no_gt [OF t] tag by simp
  moreover have "CHR ''>'' \<notin> set kw" using canonical_no_gt [OF kw] by simp
  moreover have "CHR ''>'' \<notin> set b" using b by (auto simp: list_all_iff)
  moreover have "w \<noteq> CHR ''>''" "q1 \<noteq> CHR ''>''" using w q(1) not_quote_gt by auto
  ultimately have P: "CHR ''>'' \<notin> set ?P" by auto
  have eq: "x @ CHR ''>'' # rest = ?P @ (v @ q2 # a @ CHR ''>'' # r)" using s by simp
  have "\<exists>x2. x = ?P @ x2"
  proof -
    from eq have "takeWhile (\<lambda>c. c \<noteq> CHR ''>'') (x @ CHR ''>'' # rest) =
        takeWhile (\<lambda>c. c \<noteq> CHR ''>'') (?P @ (v @ q2 # a @ CHR ''>'' # r))" by simp
    moreover have "takeWhile (\<lambda>c. c \<noteq> CHR ''>'') (x @ CHR ''>'' # rest) = x"
      using x by (auto simp: takeWhile_tail)
    moreover have "takeWhile (\<lambda>c. c \<noteq> CHR ''>'') (?P @ (v @ q2 # a @ CHR ''>'' # r)) =
        ?P @ takeWhile (\<lambda>c. c \<noteq> CHR ''>'') (v @ q2 # a @ CHR ''>'' # r)"
      using P by (subst takeWhile_append2) auto
    ultimately show ?thesis by metis
  qed
  then obtain x2 where x2: "x = ?P @ x2" by blast
  with eq have rest: "x2 @ CHR ''>'' # rest = v @ q2 # a @ CHR ''>'' # r" by simp
  from e x2 have "empty_values ((t @ b) @ (w # kw @ q1 # x2 @ ''>''))" by simp
  then have ev: "empty_values (w # kw @ q1 # x2 @ ''>'')" by (rule empty_values_suffix)
  have "match_literal ''src='' (kw @ q1 # x2 @ ''>'') = Some (q1 # x2 @ ''>'')"
    using kw by (rule match_literal_append)
  then have "src_candidate (w # kw @ q1 # x2 @ ''>'') = Some (x2 @ ''>'')"
    using w q(1) by (simp add: src_candidate_def)
  with ev have "is_quote (hd (x2 @ ''>''))" by (cases "x2 @ ''>''") auto
  then have "x2 \<noteq> []" "is_quote (hd x2)" using not_quote_gt by (cases x2; simp)+
  with rest have "hd v = hd x2" using v(1) by (cases x2; cases v) auto
  with \<open>is_quote (hd x2)\<close> v show False by (cases v) auto
qed


lemma js_replace_empty_values:
  assumes "CHR ''>'' \<notin> set x" "empty_values (x @ ''>'')" "CHR ''>'' \<notin> set tag"
  shows "js_replace tag f (x @ CHR ''>'' # rest) st =
           (x @ CHR ''>'' # fst (js_replace tag f rest st), snd (js_replace tag f rest st))"
  using assms(1,2)
proof (induction x)
  case Nil
  have "match_tag tag (CHR ''>'' # rest) = None"
    using match_tag_empty_values [of "[]" tag rest] assms(3) by (simp add: src_candidate_def not_quote_gt)
  then show ?case by (simp add: js_replace_no_match)
next
  case (Cons c x)
  then have x: "CHR ''>'' \<notin> set x" "empty_values (x @ ''>'')" by simp_all
  have "match_tag tag (c # x @ CHR ''>'' # rest) = None"
    using match_tag_empty_values [of "c # x" tag rest] Cons.prems assms(3) by simp
  then have "js_replace tag f ((c # x) @ CHR ''>'' # rest) st =
      (c # fst (js_replace tag f (x @ CHR ''>'' # rest) st),
       snd (js_replace tag f (x @ CHR ''>'' # rest) st))"
    by (simp add: js_replace_no_match)
  with Cons.IH [OF x] show ?case by simp
qed

section \<open>Paths of HTML files and of backups\<close>

lemma endsWith_suffix: "endsWith s p \<longleftrightarrow> suffix p s"
proof
  assume "endsWith s p"
  then have "s = take (length s - length p) s @ p"
    by (metis append_take_drop_id endsWith_def)
  then show "suffix p s" by (metis suffixI)
next
  assume "suffix p s"
  then obtain a where "s = a @ p" by (auto simp: suffix_def)
  then show "endsWith s p" by (simp add: endsWith_def)
qed

lemma html_not_backup: "endsWith f ''.html'' \<Longrightarrow> \<not> endsWith f ''.backup''"
  by (auto simp: endsWith_suffix suffix_def)

lemma backup_path_not_html: "endsWith f ''.html'' \<Longrightarrow> f \<noteq> p @ ''.backup''"
  using html_not_backup [of f] by (auto simp: endsWith_suffix suffix_def)

lemma path_join_name:
  assumes "name \<noteq> []" "sep \<notin> set name" "name \<noteq> ''.''" "name \<noteq> ''..''"
  shows "\<exists>pre. path_join [d, name] = pre @ name"
proof -
  have last: "last name \<noteq> sep" using assms(1,2) by (metis last_in_set)
  have clean: "clean_segment name" using assms by (simp add: clean_segment_def)
  show ?thesis
  proof (cases "d = []")
    case True
    have hd: "hd name \<noteq> sep" using assms(1,2) by (metis hd_in_set)
    have "normalizeString name True = name"
      using clean by (simp add: normalizeString_def split_sep_no_sep assms(2) normalize_step_def
          clean_segment_def)
    then have "normalize name = name"
      using assms(1) hd last by (simp add: normalize_def Let_def)
    with True assms(1) have "path_join [d, name] = [] @ name"
      by (simp add: path_join_def Let_def)
    then show ?thesis by blast
  next
    case False
    let ?j = "d @ sep # name"
    let ?a = "\<not> hd ?j = sep"
    let ?st = "foldl (normalize_step ?a) [] (split_sep d)"
    have "split_sep ?j = split_sep d @ [name]"
      by (simp add: split_sep_append split_sep_no_sep assms(2))
    then have "foldl (normalize_step ?a) [] (split_sep ?j) = normalize_step ?a ?st name"
      by simp
    also have "\<dots> = ?st @ [name]"
      using clean by (simp add: normalize_step_def clean_segment_def)
    finally have ns: "normalizeString ?j ?a = join_sep (?st @ [name])"
      by (simp add: normalizeString_def)
    have js: "\<exists>pre. join_sep (?st @ [name]) = pre @ name"
    proof (cases "?st = []")
      case True
      then have "join_sep (?st @ [name]) = [] @ name" by simp
      then show ?thesis by blast
    next
      case False
      then have "join_sep (?st @ [name]) = (join_sep ?st @ [sep]) @ name"
        by (simp add: join_sep_snoc)
      then show ?thesis by blast
    qed
    then obtain pre where pre: "join_sep (?st @ [name]) = pre @ name" by blast
    have lastj: "last ?j \<noteq> sep" using last assms(1) by simp
    have "normalize ?j = (if hd ?j = sep then ''/'' else []) @ pre @ name"
      using ns pre lastj assms(1) by (simp add: normalize_def Let_def)
    moreover have "path_join [d, name] = normalize ?j"
      using False assms(1) by (simp add: path_join_def Let_def)
    ultimately have "path_join [d, name] = ((if hd ?j = sep then ''/'' else []) @ pre) @ name"
      by simp
    then show ?thesis by blast
  qed
qed

lemma entry_name_props:
  "entry_name d k = Some name \<Longrightarrow> name \<noteq> [] \<and> sep \<notin> set name \<and> suffix name k"
  by (auto simp: entry_name_def Let_def suffix_def split: if_splits
      intro: exI [of _ "take (length (dir_prefix d)) k"])

lemma html_name_clean:
  "endsWith name ''.html'' \<Longrightarrow> name \<noteq> [] \<and> name \<noteq> ''.'' \<and> name \<noteq> ''..''"
  by (auto simp: endsWith_def)

lemma findHtmlFiles_props:
  assumes "f \<in> set (findHtmlFiles conv fs)"
  shows "endsWith f ''.html'' \<and> (\<exists>c. map_of fs f = Some (File c))"
proof -
  from assms obtain files where rd: "readdirSync fs (htmlDir conv) = Inr files"
    by (cases "readdirSync fs (htmlDir conv)") (auto simp: findHtmlFiles_def)
  let ?paths = "map (\<lambda>file. path_join [htmlDir conv, file])
                         (filter (\<lambda>file. endsWith file ''.html'') files)"
  from assms rd have f: "f \<in> set ?paths"
    and isf: "(case map_of fs f of Some n \<Rightarrow> isFile n | None \<Rightarrow> False)"
    by (auto simp: findHtmlFiles_def Let_def split: if_splits)
  from f obtain name where name: "name \<in> set files" "endsWith name ''.html''"
    "f = path_join [htmlDir conv, name]" by auto
  from rd name(1) obtain k where "entry_name (htmlDir conv) k = Some name"
    by (auto simp: readdirSync_def List.map_filter_def split: option.splits fnode.splits)
  then have "name \<noteq> []" "sep \<notin> set name" using entry_name_props by blast+
  with html_name_clean [OF name(2)] path_join_name [of name "htmlDir conv"]
  obtain pre where "f = pre @ name" using name(3) by auto
  with name(2) have "endsWith f ''.html''"
    by (auto simp: endsWith_suffix suffix_def)
  moreover from isf have "\<exists>c. map_of fs f = Some (File c)"
    by (auto simp: isFile_def split: option.splits fnode.splits)
  ultimately show ?thesis by blast
qed

section \<open>The effect of processHtmlFile on the file system\<close>

lemma processHtmlFile_fs:
  "snd (processHtmlFile conv fs f) =
     (case map_of fs f of
        Some (File html) \<Rightarrow>
          (if fst (snd (rewrite_html fs conv html)) then
             AList.update f (File (fst (rewrite_html fs conv html)))
               (if map_of fs (f @ ''.backup'') = None
                then AList.update (f @ ''.backup'') (File html) fs else fs)
           else fs)
      | _ \<Rightarrow> fs)"
proof (cases "map_of fs f")
  case None
  then show ?thesis by (simp add: processHtmlFile_def readFileSync_def)
next
  case (Some n)
  show ?thesis
  proof (cases n)
    case Dir
    with Some show ?thesis by (simp add: processHtmlFile_def readFileSync_def)
  next
    case (File html)
    obtain h' m c' where rw: "rewrite_html fs conv html = (h', m, c')"
      by (cases "rewrite_html fs conv html")
    have ne: "f @ ''.backup'' \<noteq> f" by simp
    show ?thesis
    proof (cases m)
      case False
      with Some File rw show ?thesis by (simp add: processHtmlFile_def readFileSync_def)
    next
      case True
      show ?thesis
      proof (cases "map_of fs (f @ ''.backup'')")
        case None
        have "map_of (AList.update (f @ ''.backup'') (File html) fs) f = Some (File html)"
          using Some File ne by (simp add: update_conv')
        with Some File rw True None show ?thesis
          by (simp add: processHtmlFile_def readFileSync_def existsSync_def copyFileSync_def
              writeFileSync_def Let_def)
      next
        case (Some b)
        with \<open>map_of fs f = Some n\<close> File rw True show ?thesis
          by (simp add: processHtmlFile_def readFileSync_def existsSync_def writeFileSync_def Let_def)
      qed
    qed
  qed
qed

text \<open>
  \<open>fs_evolves fs fs'\<close>: the store \<open>fs'\<close> has the entries of \<open>fs\<close>, in their order,
  followed by new entries whose paths end in \<^verbatim>\<open>.backup\<close>, and the directories of the two
  are the same.
\<close>

definition fs_evolves :: "filesystem \<Rightarrow> filesystem \<Rightarrow> bool" where
  "fs_evolves fs fs' =
     ((\<exists>ks. map fst fs' = map fst fs @ ks \<and> list_all (\<lambda>k. endsWith k ''.backup'') ks) \<and>
      (\<forall>p. (map_of fs' p = Some Dir) = (map_of fs p = Some Dir)))"

lemma fs_evolves_refl: "fs_evolves fs fs"
  by (simp add: fs_evolves_def)

lemma fs_evolves_trans: "fs_evolves a b \<Longrightarrow> fs_evolves b c \<Longrightarrow> fs_evolves a c"
  unfolding fs_evolves_def by (elim conjE exE) (auto intro: exI [of _ "_ @ _"])

lemma fs_evolves_write:
  assumes "map_of fs f = Some (File c)"
  shows "fs_evolves fs (AList.update f (File c') fs)"
proof -
  from assms have "f \<in> set (map fst fs)" by (metis map_of_eq_None_iff option.distinct(1) set_map)
  then have "map fst (AList.update f (File c') fs) = map fst fs @ []"
    by (simp add: update_keys)
  moreover have "(map_of (AList.update f (File c') fs) p = Some Dir) = (map_of fs p = Some Dir)" for p
    using assms by (simp add: update_conv')
  moreover have "list_all (\<lambda>k. endsWith k ''.backup'') []" by simp
  ultimately show ?thesis unfolding fs_evolves_def by blast
qed

lemma fs_evolves_create:
  assumes "map_of fs k = None" "endsWith k ''.backup''"
  shows "fs_evolves fs (AList.update k (File c) fs)"
proof -
  from assms(1) have "k \<notin> set (map fst fs)" by (simp add: map_of_eq_None_iff)
  then have "map fst (AList.update k (File c) fs) = map fst fs @ [k]"
    by (simp add: update_keys)
  moreover have "list_all (\<lambda>k. endsWith k ''.backup'') [k]" using assms(2) by simp
  moreover have "(map_of (AList.update k (File c) fs) p = Some Dir) = (map_of fs p = Some Dir)" for p
    using assms(1) by (simp add: update_conv')
  ultimately show ?thesis unfolding fs_evolves_def by blast
qed

lemma processHtmlFile_evolves: "fs_evolves fs (snd (processHtmlFile conv fs f))"
proof (cases "map_of fs f")
  case None
  then show ?thesis by (simp add: processHtmlFile_fs fs_evolves_refl)
next
  case (Some n)
  show ?thesis
  proof (cases n)
    case Dir
    with Some show ?thesis by (simp add: processHtmlFile_fs fs_evolves_refl)
  next
    case (File html)
    let ?b = "f @ ''.backup''"
    let ?fs1 = "if map_of fs ?b = None then AList.update ?b (File html) fs else fs"
    have "endsWith ?b ''.backup''" by (simp add: endsWith_def)
    then have 1: "fs_evolves fs ?fs1"
      by (auto simp: fs_evolves_refl intro: fs_evolves_create)
    have "map_of ?fs1 f = Some (File html)" using Some File by (simp add: update_conv')
    then have 2: "fs_evolves ?fs1 (AList.update f (File h') ?fs1)" for h'
      by (rule fs_evolves_write)
    from 1 2 have "fs_evolves fs (AList.update f (File h') ?fs1)" for h'
      by (rule fs_evolves_trans)
    with Some File show ?thesis by (simp add: processHtmlFile_fs fs_evolves_refl)
  qed
qed

lemma processAll_evolves: "fs_evolves fs (snd (processAll conv fs files))"
proof (induction files arbitrary: conv fs)
  case Nil
  show ?case by (simp add: fs_evolves_refl)
next
  case (Cons f files)
  obtain c1 fs1 where p: "processHtmlFile conv fs f = (c1, fs1)" by (cases "processHtmlFile conv fs f")
  with processHtmlFile_evolves [of fs conv f] have "fs_evolves fs fs1" by simp
  with Cons [of fs1 c1] p show ?case by (auto intro: fs_evolves_trans)
qed

lemma run_evolves: "fs_evolves fs (snd (snd (run conv fs)))"
  using processAll_evolves [of fs conv "findHtmlFiles conv fs"]
  by (auto simp: run_def Let_def fs_evolves_refl split: prod.splits)


lemma readdir_html_path:
  assumes "readdirSync fs d = Inr files" "name \<in> set files" "endsWith name ''.html''"
  shows "endsWith (path_join [d, name]) ''.html''"
proof -
  from assms(1,2) obtain k where "entry_name d k = Some name"
    by (auto simp: readdirSync_def List.map_filter_def split: option.splits fnode.splits)
  then have "name \<noteq> []" "sep \<notin> set name" using entry_name_props by blast+
  with html_name_clean [OF assms(3)] path_join_name [of name d]
  obtain pre where "path_join [d, name] = pre @ name" by auto
  with assms(3) show ?thesis by (auto simp: endsWith_suffix suffix_def)
qed

lemma fs_evolves_html:
  assumes "fs_evolves fs fs'" "endsWith p ''.html''"
  shows "existsSync fs' p = existsSync fs p"
    and "(case map_of fs' p of Some n \<Rightarrow> isFile n | None \<Rightarrow> False) =
         (case map_of fs p of Some n \<Rightarrow> isFile n | None \<Rightarrow> False)"
proof -
  from assms(1) obtain ks where ks: "map fst fs' = map fst fs @ ks"
    "list_all (\<lambda>k. endsWith k ''.backup'') ks"
    and dirs: "\<And>p. (map_of fs' p = Some Dir) = (map_of fs p = Some Dir)"
    unfolding fs_evolves_def by blast
  have "p \<notin> set ks" using ks(2) html_not_backup [OF assms(2)] by (auto simp: list_all_iff)
  moreover have "set (map fst fs') = set (map fst fs) \<union> set ks" using ks(1) by simp
  ultimately have "p \<in> set (map fst fs') \<longleftrightarrow> p \<in> set (map fst fs)" by blast
  then have ex: "(map_of fs' p = None) = (map_of fs p = None)"
    by (simp add: map_of_eq_None_iff)
  then show "existsSync fs' p = existsSync fs p" by (simp add: existsSync_def)
  show "(case map_of fs' p of Some n \<Rightarrow> isFile n | None \<Rightarrow> False) =
         (case map_of fs p of Some n \<Rightarrow> isFile n | None \<Rightarrow> False)"
    using ex dirs [of p] by (auto simp: isFile_def split: option.splits fnode.splits)
qed

lemma findHtmlFiles_evolves:
  assumes "fs_evolves fs fs'"
  shows "findHtmlFiles conv fs' = findHtmlFiles conv fs"
proof -
  let ?d = "htmlDir conv"
  from assms obtain ks where ks: "map fst fs' = map fst fs @ ks"
    "list_all (\<lambda>k. endsWith k ''.backup'') ks"
    and dirs: "\<And>p. (map_of fs' p = Some Dir) = (map_of fs p = Some Dir)"
    unfolding fs_evolves_def by blast
  show ?thesis
  proof (cases "map_of fs ?d = Some Dir")
    case False
    with dirs [of ?d] have "map_of fs' ?d \<noteq> Some Dir" by simp
    with False show ?thesis
      by (auto simp: findHtmlFiles_def readdirSync_def split: option.splits fnode.splits)
  next
    case True
    with dirs [of ?d] have True': "map_of fs' ?d = Some Dir" by simp
    let ?names = "List.map_filter (entry_name ?d) (map fst fs)"
    let ?new = "List.map_filter (entry_name ?d) ks"
    let ?html = "\<lambda>file. endsWith file ''.html''"
    have rd: "readdirSync fs ?d = Inr ?names" using True by (simp add: readdirSync_def)
    have rd': "readdirSync fs' ?d = Inr (?names @ ?new)"
      using True' ks(1) by (simp add: readdirSync_def List.map_filter_def)
    have "\<not> ?html name" if "name \<in> set ?new" for name
    proof
      assume h: "?html name"
      from that obtain k where k: "k \<in> set ks" "entry_name ?d k = Some name"
        by (auto simp: List.map_filter_def)
      then have "suffix name k" using entry_name_props by blast
      with h have "endsWith k ''.html''" by (auto simp: endsWith_suffix suffix_def)
      moreover from k(1) ks(2) have "endsWith k ''.backup''" by (auto simp: list_all_iff)
      ultimately show False using html_not_backup by blast
    qed
    then have "filter ?html ?new = []" by (simp add: filter_empty_conv)
    then have names: "filter ?html (?names @ ?new) = filter ?html ?names" by simp
    let ?paths = "map (\<lambda>file. path_join [?d, file]) (filter ?html ?names)"
    have html: "endsWith p ''.html''" if "p \<in> set ?paths" for p
      using that readdir_html_path [OF rd] by auto
    have all: "list_all (existsSync fs') ?paths = list_all (existsSync fs) ?paths"
      using fs_evolves_html(1) [OF assms html] by (auto simp: list_all_iff)
    have flt: "filter (\<lambda>p. case map_of fs' p of Some n \<Rightarrow> isFile n | None \<Rightarrow> False) ?paths =
        filter (\<lambda>p. case map_of fs p of Some n \<Rightarrow> isFile n | None \<Rightarrow> False) ?paths"
      using fs_evolves_html(2) [OF assms html] by (intro filter_cong) auto
    show ?thesis
      unfolding findHtmlFiles_def rd rd' sum.case Let_def names all flt ..
  qed
qed

section \<open>Backups are kept\<close>

lemma processHtmlFile_other:
  "q \<noteq> f \<Longrightarrow> q \<noteq> f @ ''.backup'' \<Longrightarrow> map_of (snd (processHtmlFile conv fs f)) q = map_of fs q"
  by (simp add: processHtmlFile_fs update_conv' split: option.splits fnode.splits)

lemma processHtmlFile_backup_kept:
  "map_of fs (f @ ''.backup'') = Some n \<Longrightarrow>
     map_of (snd (processHtmlFile conv fs f)) (f @ ''.backup'') = Some n"
  by (simp add: processHtmlFile_fs update_conv' split: option.splits fnode.splits)

lemma processHtmlFile_keeps_backup_paths:
  assumes "endsWith f ''.html''" "map_of fs (p @ ''.backup'') = Some n"
  shows "map_of (snd (processHtmlFile conv fs f)) (p @ ''.backup'') = Some n"
proof (cases "p = f")
  case True
  with assms(2) show ?thesis by (simp add: processHtmlFile_backup_kept)
next
  case False
  then have "p @ ''.backup'' \<noteq> f @ ''.backup''" by simp
  moreover have "p @ ''.backup'' \<noteq> f" using backup_path_not_html [OF assms(1)] by metis
  ultimately show ?thesis using assms(2) by (simp add: processHtmlFile_other)
qed

lemma processAll_keeps_backup_paths:
  assumes "\<forall>f\<in>set files. endsWith f ''.html''" "map_of fs (p @ ''.backup'') = Some n"
  shows "map_of (snd (processAll conv fs files)) (p @ ''.backup'') = Some n"
  using assms
proof (induction files arbitrary: conv fs)
  case Nil
  then show ?case by simp
next
  case (Cons f files)
  obtain c1 fs1 where p: "processHtmlFile conv fs f = (c1, fs1)" by (cases "processHtmlFile conv fs f")
  with processHtmlFile_keeps_backup_paths [of f fs p n conv] Cons.prems
  have "map_of fs1 (p @ ''.backup'') = Some n" by simp
  with Cons.IH [of fs1 c1] Cons.prems p show ?case by simp
qed

lemma run_keeps_backup_paths:
  assumes "map_of fs (p @ ''.backup'') = Some n"
  shows "map_of (snd (snd (run conv fs))) (p @ ''.backup'') = Some n"
proof -
  have "\<forall>f\<in>set (findHtmlFiles conv fs). endsWith f ''.html''"
    using findHtmlFiles_props by blast
  from processAll_keeps_backup_paths [OF this assms, of conv] assms
  show ?thesis by (auto simp: run_def Let_def split: prod.splits)
qed


text \<open>
  C5. \<open>processHtmlFile\<close> never changes a backup that exists. It writes the backup
  only if none exists and a pass modified the content, and then the backup holds the
  content the file had. When no pass modified anything the file system is left as it
  was: the file is not written and no backup is made. A backup that exists is still
  there, unchanged, after a whole run and after any later run.
\<close>

theorem backup_written_once:
  "(let bp = f @ ''.backup''; fs' = snd (processHtmlFile conv fs f) in
      (map_of fs bp \<noteq> None \<longrightarrow> map_of fs' bp = map_of fs bp) \<and>
      (map_of fs' bp \<noteq> map_of fs bp \<longrightarrow>
         map_of fs bp = None \<and>
         (\<exists>html. map_of fs f = Some (File html) \<and> fst (snd (rewrite_html fs conv html)) \<and>
            map_of fs' bp = Some (File html))) \<and>
      ((\<forall>html. map_of fs f = Some (File html) \<longrightarrow> \<not> fst (snd (rewrite_html fs conv html)))
         \<longrightarrow> fs' = fs)) \<and>
   (\<forall>p n. map_of fs (p @ ''.backup'') = Some n \<longrightarrow>
      map_of (snd (snd (run conv fs))) (p @ ''.backup'') = Some n \<and>
      map_of (snd (snd (run conv2 (snd (snd (run conv fs)))))) (p @ ''.backup'') = Some n)"
proof -
  let ?bp = "f @ ''.backup''"
  let ?fs' = "snd (processHtmlFile conv fs f)"
  have ne: "?bp \<noteq> f" by simp
  have kept: "map_of fs ?bp \<noteq> None \<longrightarrow> map_of ?fs' ?bp = map_of fs ?bp"
    using processHtmlFile_backup_kept [of fs f _ conv] by auto
  have written: "map_of ?fs' ?bp \<noteq> map_of fs ?bp \<longrightarrow>
         map_of fs ?bp = None \<and>
         (\<exists>html. map_of fs f = Some (File html) \<and> fst (snd (rewrite_html fs conv html)) \<and>
            map_of ?fs' ?bp = Some (File html))"
    using ne by (auto simp: processHtmlFile_fs update_conv' split: option.splits fnode.splits if_splits)
  have untouched: "(\<forall>html. map_of fs f = Some (File html) \<longrightarrow> \<not> fst (snd (rewrite_html fs conv html)))
         \<longrightarrow> ?fs' = fs"
    by (auto simp: processHtmlFile_fs split: option.splits fnode.splits)
  have runs: "map_of (snd (snd (run conv fs))) (p @ ''.backup'') = Some n \<and>
      map_of (snd (snd (run conv2 (snd (snd (run conv fs)))))) (p @ ''.backup'') = Some n"
    if "map_of fs (p @ ''.backup'') = Some n" for p n
    using run_keeps_backup_paths [OF run_keeps_backup_paths [OF that]]
      run_keeps_backup_paths [OF that] by simp
  from kept written untouched runs show ?thesis unfolding Let_def by blast
qed

text \<open>A file converted by an earlier run, to which a second tag was added afterwards.\<close>

definition fs_edited :: filesystem where
  "fs_edited =
     [(''/w/B64'', Dir), (''/w/assets'', Dir), (''/w/assets/a.png'', File ''abc''),
      (''/w/assets/b.png'', File ''x''),
      (''/w/B64/index.html'',
         File ''<img src=\"data:image/png;base64,YWJj\"><img src=\"b.png\">''),
      (''/w/B64/index.html.backup'', File ''<img src=\"a.png\">'')]"

theorem backup_written_once_witness:
  "map_of fs_edited (''/w/B64/index.html'' @ ''.backup'') = Some (File ''<img src=\"a.png\">'') \<and>
   map_of (snd (snd (run (new_converter ''/w/B64'') fs_edited))) (''/w/B64/index.html'' @ ''.backup'') =
     Some (File ''<img src=\"a.png\">'') \<and>
   map_of (snd (snd (run (new_converter ''/w/B64'') fs_edited))) ''/w/B64/index.html'' =
     Some (File ''<img src=\"data:image/png;base64,YWJj\"><img src=\"data:image/png;base64,eA==\">'')"
proof -
  let ?c = "new_converter ''/w/B64''"
  have 1: "map_of fs_edited (''/w/B64/index.html'' @ ''.backup'') = Some (File ''<img src=\"a.png\">'')"
    by (simp add: fs_edited_def)
  have 2: "map_of (snd (snd (run ?c fs_edited))) ''/w/B64/index.html'' =
     Some (File ''<img src=\"data:image/png;base64,YWJj\"><img src=\"data:image/png;base64,eA==\">'')"
    by code_simp
  from backup_written_once [of "''/w/B64/index.html''" ?c fs_edited ?c] 1
  have "map_of (snd (snd (run ?c fs_edited))) (''/w/B64/index.html'' @ ''.backup'') =
     Some (File ''<img src=\"a.png\">'')"
    unfolding Let_def by blast
  with 1 2 show ?thesis by blast
qed

section \<open>restore\<close>

text \<open>One step of the loop of \<open>restore\<close>, as a function of the file system.\<close>

definition restore_step :: "filesystem \<Rightarrow> string \<Rightarrow> filesystem" where
  "restore_step fs f =
     (case map_of fs (f @ ''.backup'') of
        None \<Rightarrow> fs
      | Some n \<Rightarrow>
          if map_of fs f = Some Dir then fs
          else (case n of File c \<Rightarrow> AList.update f (File c) fs | Dir \<Rightarrow> AList.delete f fs))"

lemma restoreAll_Cons:
  "snd (restoreAll n fs (f # files)) = snd (restoreAll m (restore_step fs f) files)"
proof -
  have indep: "snd (restoreAll a fs' files) = snd (restoreAll b fs' files)" for a b fs'
  proof (induction files arbitrary: a b fs')
    case Nil
    show ?case by simp
  next
    case (Cons g files)
    show ?case
      by (auto simp: Let_def split: sum.splits prod.splits intro: Cons)
  qed
  show ?thesis
    by (auto simp: restore_step_def existsSync_def copyFileSync_def Let_def
        split: option.splits fnode.splits intro: indep)
qed

lemma restoreAll_fold: "snd (restoreAll n fs files) = foldl restore_step fs files"
proof (induction files arbitrary: n fs)
  case Nil
  show ?case by simp
next
  case (Cons f files)
  show ?case using restoreAll_Cons [of n fs f files n] Cons [of n "restore_step fs f"] by simp
qed

lemma restore_step_other: "q \<noteq> f \<Longrightarrow> map_of (restore_step fs f) q = map_of fs q"
  by (simp add: restore_step_def update_conv' delete_conv' split: option.splits fnode.splits)

lemma restore_step_file:
  "map_of fs f \<noteq> Some Dir \<Longrightarrow>
     map_of (restore_step fs f) f =
       (case map_of fs (f @ ''.backup'') of
          None \<Rightarrow> map_of fs f | Some (File b) \<Rightarrow> Some (File b) | Some Dir \<Rightarrow> None)"
  by (simp add: restore_step_def update_conv' delete_conv' split: option.splits fnode.splits)

text \<open>The files of a restore have paths that end in \<^verbatim>\<open>.html\<close>, and none is a directory.\<close>

definition html_files :: "filesystem \<Rightarrow> string list \<Rightarrow> bool" where
  "html_files fs files =
     list_all (\<lambda>f. endsWith f ''.html'' \<and> map_of fs f \<noteq> Some Dir) files"

lemma findHtmlFiles_html_files: "html_files fs (findHtmlFiles conv fs)"
  using findHtmlFiles_props by (fastforce simp: html_files_def list_all_iff)

lemma restore_step_html_files:
  assumes "html_files fs files" "endsWith f ''.html''" "map_of fs f \<noteq> Some Dir"
  shows "html_files (restore_step fs f) files"
proof -
  have "map_of (restore_step fs f) g \<noteq> Some Dir" if "map_of fs g \<noteq> Some Dir" for g
  proof (cases "g = f")
    case True
    with restore_step_file [OF assms(3)] assms(3) show ?thesis
      by (auto split: option.splits fnode.splits)
  next
    case False
    with that show ?thesis by (simp add: restore_step_other)
  qed
  with assms(1) show ?thesis by (auto simp: html_files_def list_all_iff)
qed

lemma restore_fold_props:
  assumes "html_files fs files"
  shows "(\<forall>q. q \<notin> set files \<longrightarrow> map_of (foldl restore_step fs files) q = map_of fs q) \<and>
         (\<forall>f\<in>set files. map_of (foldl restore_step fs files) f =
            (case map_of fs (f @ ''.backup'') of
               None \<Rightarrow> map_of fs f | Some (File b) \<Rightarrow> Some (File b) | Some Dir \<Rightarrow> None))"
  using assms
proof (induction files arbitrary: fs)
  case Nil
  then show ?case by simp
next
  case (Cons g files)
  from Cons.prems have g: "endsWith g ''.html''" "map_of fs g \<noteq> Some Dir"
    and rest: "html_files fs files"
    by (auto simp: html_files_def)
  let ?fs1 = "restore_step fs g"
  have hf: "html_files ?fs1 files" by (rule restore_step_html_files [OF rest g])
  note IH = Cons.IH [OF hf]
  have backup: "map_of ?fs1 (f @ ''.backup'') = map_of fs (f @ ''.backup'')" for f
    using backup_path_not_html [OF g(1), of f] by (metis restore_step_other)
  have 2: "map_of (foldl restore_step fs (g # files)) q = map_of fs q" if "q \<notin> set (g # files)" for q
    using IH that by (simp add: restore_step_other)
  have 3: "map_of (foldl restore_step fs (g # files)) f =
            (case map_of fs (f @ ''.backup'') of
               None \<Rightarrow> map_of fs f | Some (File b) \<Rightarrow> Some (File b) | Some Dir \<Rightarrow> None)"
    if "f \<in> set (g # files)" for f
  proof (cases "f \<in> set files")
    case True
    with IH have "map_of (foldl restore_step ?fs1 files) f =
        (case map_of ?fs1 (f @ ''.backup'') of
           None \<Rightarrow> map_of ?fs1 f | Some (File b) \<Rightarrow> Some (File b) | Some Dir \<Rightarrow> None)"
      by blast
    also have "\<dots> = (case map_of fs (f @ ''.backup'') of
               None \<Rightarrow> map_of fs f | Some (File b) \<Rightarrow> Some (File b) | Some Dir \<Rightarrow> None)"
    proof (cases "f = g")
      case True
      with restore_step_file [OF g(2)] show ?thesis
        by (auto simp: backup split: option.splits fnode.splits)
    next
      case False
      then have "map_of ?fs1 f = map_of fs f" by (simp add: restore_step_other)
      then show ?thesis by (simp add: backup split: option.splits fnode.splits)
    qed
    finally show ?thesis by simp
  next
    case False
    with that have fg: "f = g" by simp
    from False IH have "map_of (foldl restore_step ?fs1 files) g = map_of ?fs1 g"
      unfolding fg by simp
    with restore_step_file [OF g(2)] show ?thesis unfolding fg by simp
  qed
  from 2 3 show ?case by blast
qed

lemma restore_fold: "snd (restore conv fs) = foldl restore_step fs (findHtmlFiles conv fs)"
  by (simp add: restore_def restoreAll_fold)

lemma delete_absent: "map_of fs k = None \<Longrightarrow> AList.delete k fs = fs"
  by (induction fs) (auto split: if_splits)

lemma restore_step_restored:
  assumes "case map_of fs (f @ ''.backup'') of
             None \<Rightarrow> True
           | Some (File b) \<Rightarrow> map_of fs f = Some (File b)
           | Some Dir \<Rightarrow> map_of fs f = None"
  shows "restore_step fs f = fs"
  using assms
  by (auto simp: restore_step_def update_triv delete_absent split: option.splits fnode.splits)

lemma restore_fold_restored:
  assumes "\<forall>f\<in>set files. case map_of fs (f @ ''.backup'') of
             None \<Rightarrow> True
           | Some (File b) \<Rightarrow> map_of fs f = Some (File b)
           | Some Dir \<Rightarrow> map_of fs f = None"
  shows "foldl restore_step fs files = fs"
  using assms by (induction files) (simp_all add: restore_step_restored)

lemma map_filter_member:
  "y \<in> set (List.map_filter f xs) \<longleftrightarrow> (\<exists>x\<in>set xs. f x = Some y)"
  by (induction xs) (auto simp: List.map_filter_def)

text \<open>A restore finds no new HTML file in the file system left by a restore.\<close>

lemma findHtmlFiles_restored:
  assumes g: "g \<in> set (findHtmlFiles conv (snd (restore conv fs)))"
  shows "g \<in> set (findHtmlFiles conv fs)"
proof (cases "findHtmlFiles conv fs = []")
  case True
  then have "snd (restore conv fs) = fs" by (simp add: restore_fold)
  with g show ?thesis by simp
next
  case False
  let ?files = "findHtmlFiles conv fs"
  let ?fs' = "snd (restore conv fs)"
  let ?d = "htmlDir conv"
  have fs': "?fs' = foldl restore_step fs ?files" by (rule restore_fold)
  note props = restore_fold_props [OF findHtmlFiles_html_files [of fs conv], folded fs']
  from props have other: "\<And>q. q \<notin> set ?files \<Longrightarrow> map_of ?fs' q = map_of fs q" by blast
  have isfile: "\<exists>c. map_of fs f = Some (File c)" if "f \<in> set ?files" for f
    using findHtmlFiles_props [OF that] by blast
  have present: "map_of fs k \<noteq> None" if "map_of ?fs' k \<noteq> None" for k
  proof (cases "k \<in> set ?files")
    case True
    with isfile show ?thesis by auto
  next
    case False
    with that other show ?thesis by simp
  qed
  from False obtain names where rd: "readdirSync fs ?d = Inr names"
    by (cases "readdirSync fs ?d") (auto simp: findHtmlFiles_def)
  then have dir: "map_of fs ?d = Some Dir"
    and names: "names = List.map_filter (entry_name ?d) (map fst fs)"
    by (auto simp: readdirSync_def split: option.splits fnode.splits)
  let ?paths = "map (\<lambda>file. path_join [?d, file]) (filter (\<lambda>file. endsWith file ''.html'') names)"
  from False rd have files: "?files =
      filter (\<lambda>p. case map_of fs p of Some n \<Rightarrow> isFile n | None \<Rightarrow> False) ?paths"
    by (auto simp: findHtmlFiles_def Let_def split: if_splits)
  from g obtain names' where rd': "readdirSync ?fs' ?d = Inr names'"
    by (cases "readdirSync ?fs' ?d") (auto simp: findHtmlFiles_def)
  then have names': "names' = List.map_filter (entry_name ?d) (map fst ?fs')"
    by (auto simp: readdirSync_def split: option.splits fnode.splits)
  from g rd' obtain n where n: "n \<in> set names'" "endsWith n ''.html''" "g = path_join [?d, n]"
    and gfile: "(case map_of ?fs' g of Some n \<Rightarrow> isFile n | None \<Rightarrow> False)"
    by (auto simp: findHtmlFiles_def Let_def split: if_splits)
  from n(1) have "n \<in> set (List.map_filter (entry_name ?d) (map fst ?fs'))"
    unfolding names' .
  then obtain k where k: "k \<in> set (map fst ?fs')" "entry_name ?d k = Some n"
    unfolding map_filter_member by blast
  from k(1) have "map_of ?fs' k \<noteq> None" by (simp add: map_of_eq_None_iff)
  then have "map_of fs k \<noteq> None" by (rule present)
  then have "k \<in> set (map fst fs)" by (simp add: map_of_eq_None_iff)
  with k(2) have "n \<in> set (List.map_filter (entry_name ?d) (map fst fs))"
    unfolding map_filter_member by blast
  then have "n \<in> set names" unfolding names .
  with n have path: "g \<in> set ?paths" by auto
  show ?thesis
  proof (cases "g \<in> set ?files")
    case True
    then show ?thesis .
  next
    case False
    then have "map_of ?fs' g = map_of fs g" by (rule other)
    with gfile path show ?thesis unfolding files by simp
  qed
qed

text \<open>
  C10 (as amended). \<open>restore\<close> creates nothing, and it never touches a path that ends in
  \<^verbatim>\<open>.backup\<close>: backups survive it. Nothing changes outside the HTML files found. Every
  HTML file found whose backup is a regular file gets the content of its backup,
  whatever happened to the files before it, and a file with no backup keeps its
  content. A file whose backup cannot be copied (the backup path is a directory) does
  not keep its content: the failed copy removes the file. Running \<open>restore\<close> again on
  the result changes nothing.
\<close>

theorem restore_keeps_backups:
  "(let fs' = snd (restore conv fs) in
      (\<forall>p. map_of fs p = None \<longrightarrow> map_of fs' p = None) \<and>
      (\<forall>p. endsWith p ''.backup'' \<longrightarrow> map_of fs' p = map_of fs p) \<and>
      (\<forall>p. p \<notin> set (findHtmlFiles conv fs) \<longrightarrow> map_of fs' p = map_of fs p) \<and>
      (\<forall>f\<in>set (findHtmlFiles conv fs).
         map_of fs' f =
           (case map_of fs (f @ ''.backup'') of
              None \<Rightarrow> map_of fs f | Some (File b) \<Rightarrow> Some (File b) | Some Dir \<Rightarrow> None)) \<and>
      snd (restore conv fs') = fs')"
proof -
  let ?files = "findHtmlFiles conv fs"
  let ?fs' = "snd (restore conv fs)"
  have fs': "?fs' = foldl restore_step fs ?files" by (rule restore_fold)
  note props = restore_fold_props [OF findHtmlFiles_html_files [of fs conv], folded fs']
  from props have other: "\<And>q. q \<notin> set ?files \<Longrightarrow> map_of ?fs' q = map_of fs q"
    and restored: "\<And>f. f \<in> set ?files \<Longrightarrow> map_of ?fs' f =
           (case map_of fs (f @ ''.backup'') of
              None \<Rightarrow> map_of fs f | Some (File b) \<Rightarrow> Some (File b) | Some Dir \<Rightarrow> None)"
    by blast+
  have html: "endsWith f ''.html''" "\<exists>c. map_of fs f = Some (File c)" if "f \<in> set ?files" for f
    using findHtmlFiles_props [OF that] by blast+
  have backups: "map_of ?fs' p = map_of fs p" if "endsWith p ''.backup''" for p
  proof -
    from that html(1) html_not_backup have "p \<notin> set ?files" by blast
    then show ?thesis by (rule other)
  qed
  have created: "map_of ?fs' p = None" if "map_of fs p = None" for p
  proof -
    from that html(2) have "p \<notin> set ?files" by force
    with that show ?thesis by (simp add: other)
  qed
  have "case map_of ?fs' (f @ ''.backup'') of
          None \<Rightarrow> True
        | Some (File b) \<Rightarrow> map_of ?fs' f = Some (File b)
        | Some Dir \<Rightarrow> map_of ?fs' f = None"
    if f': "f \<in> set (findHtmlFiles conv ?fs')" for f
  proof -
    from f' have f: "f \<in> set ?files" by (rule findHtmlFiles_restored)
    have "map_of ?fs' (f @ ''.backup'') = map_of fs (f @ ''.backup'')"
      by (rule backups) (simp add: endsWith_def)
    with restored [OF f] show ?thesis by (auto split: option.splits fnode.splits)
  qed
  then have idem: "snd (restore conv ?fs') = ?fs'"
    unfolding restore_fold [of conv ?fs'] by (intro restore_fold_restored) blast
  from created backups other restored idem show ?thesis unfolding Let_def by blast
qed

text \<open>Two HTML files with backups: the backup of the first is a directory and cannot be
  copied, the backup of the second is a file.\<close>

definition fs_bad_backup :: filesystem where
  "fs_bad_backup =
     [(''/w/B64'', Dir),
      (''/w/B64/a.html'', File ''<p>new a</p>''), (''/w/B64/a.html.backup'', Dir),
      (''/w/B64/b.html'', File ''<p>new b</p>''), (''/w/B64/b.html.backup'', File ''<p>old b</p>'')]"

theorem restore_keeps_backups_witness:
  "findHtmlFiles (new_converter ''/w/B64'') fs_bad_backup = [''/w/B64/a.html'', ''/w/B64/b.html''] \<and>
   map_of (snd (restore (new_converter ''/w/B64'') fs_bad_backup)) ''/w/B64/a.html'' = None \<and>
   map_of (snd (restore (new_converter ''/w/B64'') fs_bad_backup)) ''/w/B64/b.html'' =
     Some (File ''<p>old b</p>'') \<and>
   map_of (snd (restore (new_converter ''/w/B64'') fs_bad_backup)) ''/w/B64/b.html.backup'' =
     Some (File ''<p>old b</p>'') \<and>
   map_of (snd (restore (new_converter ''/w/B64'') fs_bad_backup)) ''/w/B64/a.html.backup'' = Some Dir \<and>
   map_of (snd (restore (new_converter ''/w/B64'') fs_bad_backup)) ''/w/B64/c.html'' = None \<and>
   snd (restore (new_converter ''/w/B64'') (snd (restore (new_converter ''/w/B64'') fs_bad_backup))) =
     snd (restore (new_converter ''/w/B64'') fs_bad_backup)"
proof -
  let ?c = "new_converter ''/w/B64''"
  have files: "findHtmlFiles ?c fs_bad_backup = [''/w/B64/a.html'', ''/w/B64/b.html'']"
    by code_simp
  have e: "endsWith ''/w/B64/b.html.backup'' ''.backup''" "endsWith ''/w/B64/a.html.backup'' ''.backup''"
    by code_simp+
  have m: "map_of fs_bad_backup (''/w/B64/a.html'' @ ''.backup'') = Some Dir"
    "map_of fs_bad_backup (''/w/B64/b.html'' @ ''.backup'') = Some (File ''<p>old b</p>'')"
    "map_of fs_bad_backup ''/w/B64/a.html'' = Some (File ''<p>new a</p>'')"
    "map_of fs_bad_backup ''/w/B64/b.html.backup'' = Some (File ''<p>old b</p>'')"
    "map_of fs_bad_backup ''/w/B64/a.html.backup'' = Some Dir"
    "map_of fs_bad_backup ''/w/B64/c.html'' = None"
    by (simp_all add: fs_bad_backup_def)
  note t = restore_keeps_backups [of ?c fs_bad_backup, unfolded Let_def files]
  from t have "map_of (snd (restore ?c fs_bad_backup)) ''/w/B64/a.html'' =
      (case map_of fs_bad_backup (''/w/B64/a.html'' @ ''.backup'') of
         None \<Rightarrow> map_of fs_bad_backup ''/w/B64/a.html''
       | Some (File b) \<Rightarrow> Some (File b) | Some Dir \<Rightarrow> None)"
    by simp
  then have a: "map_of (snd (restore ?c fs_bad_backup)) ''/w/B64/a.html'' = None"
    by (simp add: m)
  from t have "map_of (snd (restore ?c fs_bad_backup)) ''/w/B64/b.html'' =
      (case map_of fs_bad_backup (''/w/B64/b.html'' @ ''.backup'') of
         None \<Rightarrow> map_of fs_bad_backup ''/w/B64/b.html''
       | Some (File b) \<Rightarrow> Some (File b) | Some Dir \<Rightarrow> None)"
    by simp
  then have b: "map_of (snd (restore ?c fs_bad_backup)) ''/w/B64/b.html'' = Some (File ''<p>old b</p>'')"
    by (simp add: m)
  from t e have bk: "map_of (snd (restore ?c fs_bad_backup)) ''/w/B64/b.html.backup'' =
      map_of fs_bad_backup ''/w/B64/b.html.backup''"
    "map_of (snd (restore ?c fs_bad_backup)) ''/w/B64/a.html.backup'' =
      map_of fs_bad_backup ''/w/B64/a.html.backup''"
    by blast+
  from t m(6) have n: "map_of (snd (restore ?c fs_bad_backup)) ''/w/B64/c.html'' = None"
    by blast
  from t have idem: "snd (restore ?c (snd (restore ?c fs_bad_backup))) = snd (restore ?c fs_bad_backup)"
    by blast
  from files a b bk n idem m show ?thesis by simp
qed

text \<open>An HTML file whose backup path is a directory.\<close>

definition fs_dir_backup :: filesystem where
  "fs_dir_backup =
     [(''/w/B64'', Dir), (''/w/B64/index.html'', File ''<p>text</p>''),
      (''/w/B64/index.html.backup'', Dir)]"

theorem restore_removes_original:
  "map_of fs_dir_backup ''/w/B64/index.html'' = Some (File ''<p>text</p>'') \<and>
   copyFileSync fs_dir_backup ''/w/B64/index.html.backup'' ''/w/B64/index.html'' =
     Inl (EISDIR, [(''/w/B64'', Dir), (''/w/B64/index.html.backup'', Dir)]) \<and>
   restore (new_converter ''/w/B64'') fs_dir_backup =
     (0, [(''/w/B64'', Dir), (''/w/B64/index.html.backup'', Dir)]) \<and>
   map_of (snd (restore (new_converter ''/w/B64'') fs_dir_backup)) ''/w/B64/index.html'' = None"
  by code_simp

section \<open>Convert, then restore\<close>

lemma findHtmlFiles_htmlDir:
  "htmlDir conv2 = htmlDir conv \<Longrightarrow> findHtmlFiles conv2 fs = findHtmlFiles conv fs"
  unfolding findHtmlFiles_def by (simp only:)

lemma processAll_round_trip_inv:
  assumes files: "\<forall>g\<in>set files. endsWith g ''.html''"
    and f: "endsWith f ''.html''" "map_of fs0 f = Some (File c0)"
    and inv: "(map_of fs f = map_of fs0 f \<and> map_of fs (f @ ''.backup'') = None) \<or>
              map_of fs (f @ ''.backup'') = map_of fs0 f"
  shows "(map_of (snd (processAll conv fs files)) f = map_of fs0 f \<and>
          map_of (snd (processAll conv fs files)) (f @ ''.backup'') = None) \<or>
         map_of (snd (processAll conv fs files)) (f @ ''.backup'') = map_of fs0 f"
  using files inv
proof (induction files arbitrary: conv fs)
  case Nil
  then show ?case by simp
next
  case (Cons g files)
  obtain c1 fs1 where p: "processHtmlFile conv fs g = (c1, fs1)" by (cases "processHtmlFile conv fs g")
  then have fs1: "fs1 = snd (processHtmlFile conv fs g)" by simp
  from Cons.prems(1) have g: "endsWith g ''.html''" by simp
  have "(map_of fs1 f = map_of fs0 f \<and> map_of fs1 (f @ ''.backup'') = None) \<or>
        map_of fs1 (f @ ''.backup'') = map_of fs0 f"
  proof (cases "g = f")
    case False
    then have "f @ ''.backup'' \<noteq> g @ ''.backup''" by simp
    moreover have "f @ ''.backup'' \<noteq> g" using backup_path_not_html [OF g] by metis
    moreover have "f \<noteq> g @ ''.backup''" using backup_path_not_html [OF f(1)] by metis
    ultimately have "map_of fs1 f = map_of fs f" "map_of fs1 (f @ ''.backup'') = map_of fs (f @ ''.backup'')"
      using False unfolding fs1 by (simp_all add: processHtmlFile_other)
    with Cons.prems(2) show ?thesis by simp
  next
    case True
    from Cons.prems(2) show ?thesis
    proof
      assume a: "map_of fs f = map_of fs0 f \<and> map_of fs (f @ ''.backup'') = None"
      with f(2) have "map_of fs f = Some (File c0)" by simp
      with a True f(2) show ?thesis
        unfolding fs1 by (simp add: processHtmlFile_fs update_conv')
    next
      assume "map_of fs (f @ ''.backup'') = map_of fs0 f"
      with f(2) True processHtmlFile_backup_kept [of fs f "File c0" conv]
      show ?thesis unfolding fs1 by simp
    qed
  qed
  with Cons.IH [of fs1 c1] Cons.prems(1) p show ?case by simp
qed

text \<open>
  C3 (as amended). For an HTML file found by the run that has no backup when the run
  starts, convert and then restore give the file the content it had before the run;
  if the run changed the file, the backup it wrote holds that content. (With a backup
  from an earlier run in place, restore returns the content of that older backup
  instead.)
\<close>

theorem convert_restore_round_trip:
  assumes "f \<in> set (findHtmlFiles conv fs)" "map_of fs (f @ ''.backup'') = None"
    "htmlDir conv2 = htmlDir conv"
  shows "map_of (snd (restore conv2 (snd (snd (run conv fs))))) f = map_of fs f \<and>
         (map_of (snd (snd (run conv fs))) f \<noteq> map_of fs f \<longrightarrow>
            map_of (snd (snd (run conv fs))) (f @ ''.backup'') = map_of fs f)"
proof -
  let ?files = "findHtmlFiles conv fs"
  let ?fs1 = "snd (snd (run conv fs))"
  from findHtmlFiles_props [OF assms(1)] obtain c0 where
    f: "endsWith f ''.html''" "map_of fs f = Some (File c0)" by blast
  have all: "\<forall>g\<in>set ?files. endsWith g ''.html''" using findHtmlFiles_props by blast
  have "(map_of (snd (processAll conv fs ?files)) f = map_of fs f \<and>
          map_of (snd (processAll conv fs ?files)) (f @ ''.backup'') = None) \<or>
         map_of (snd (processAll conv fs ?files)) (f @ ''.backup'') = map_of fs f"
    by (rule processAll_round_trip_inv [OF all f]) (simp add: assms(2))
  then have inv: "(map_of ?fs1 f = map_of fs f \<and> map_of ?fs1 (f @ ''.backup'') = None) \<or>
         map_of ?fs1 (f @ ''.backup'') = map_of fs f"
    using assms(2) by (auto simp: run_def Let_def split: prod.splits)
  have same: "findHtmlFiles conv2 ?fs1 = ?files"
    using findHtmlFiles_evolves [OF run_evolves [of fs conv], of conv]
      findHtmlFiles_htmlDir [OF assms(3)] by simp
  have "html_files ?fs1 (findHtmlFiles conv2 ?fs1)" by (rule findHtmlFiles_html_files)
  from restore_fold_props [OF this] assms(1)
  have r: "map_of (snd (restore conv2 ?fs1)) f =
      (case map_of ?fs1 (f @ ''.backup'') of
         None \<Rightarrow> map_of ?fs1 f | Some (File b) \<Rightarrow> Some (File b) | Some Dir \<Rightarrow> None)"
    unfolding restore_fold same by blast
  from inv have "map_of (snd (restore conv2 ?fs1)) f = map_of fs f"
  proof
    assume "map_of ?fs1 f = map_of fs f \<and> map_of ?fs1 (f @ ''.backup'') = None"
    with r show ?thesis by simp
  next
    assume "map_of ?fs1 (f @ ''.backup'') = map_of fs f"
    with r f(2) show ?thesis by simp
  qed
  moreover from inv have "map_of ?fs1 f \<noteq> map_of fs f \<longrightarrow> map_of ?fs1 (f @ ''.backup'') = map_of fs f"
    by blast
  ultimately show ?thesis by blast
qed

definition fs_fresh :: filesystem where
  "fs_fresh =
     [(''/w/B64'', Dir), (''/w/assets'', Dir), (''/w/assets/a.png'', File ''abc''),
      (''/w/B64/index.html'', File ''<img src='a.png'>'')]"

theorem convert_restore_round_trip_witness:
  "map_of (snd (snd (run (new_converter ''/w/B64'') fs_fresh))) ''/w/B64/index.html'' =
     Some (File ''<img src=\"data:image/png;base64,YWJj\">'') \<and>
   map_of (snd (restore (new_converter ''/w/B64'') (snd (snd (run (new_converter ''/w/B64'') fs_fresh)))))
     ''/w/B64/index.html'' = Some (File ''<img src='a.png'>'')"
proof -
  let ?c = "new_converter ''/w/B64''"
  have 1: "''/w/B64/index.html'' \<in> set (findHtmlFiles ?c fs_fresh)" by code_simp
  have 2: "map_of fs_fresh (''/w/B64/index.html'' @ ''.backup'') = None" by (simp add: fs_fresh_def)
  have 3: "map_of fs_fresh ''/w/B64/index.html'' = Some (File ''<img src='a.png'>'')"
    by (simp add: fs_fresh_def)
  have 4: "map_of (snd (snd (run ?c fs_fresh))) ''/w/B64/index.html'' =
     Some (File ''<img src=\"data:image/png;base64,YWJj\">'')" by code_simp
  from convert_restore_round_trip [OF 1 2 refl] 3 4 show ?thesis by simp
qed

theorem restore_returns_older_backup:
  "map_of fs_edited ''/w/B64/index.html'' =
     Some (File ''<img src=\"data:image/png;base64,YWJj\"><img src=\"b.png\">'') \<and>
   map_of (snd (restore (new_converter ''/w/B64'') (snd (snd (run (new_converter ''/w/B64'') fs_edited)))))
     ''/w/B64/index.html'' = Some (File ''<img src=\"a.png\">'')"
  by code_simp

section \<open>Texts whose src values are closed\<close>

text \<open>
  Every src candidate of the text has a value that is closed by a quote before the next
  \<^verbatim>\<open>>\<close>: after the candidate, the first character that is a quote or \<^verbatim>\<open>>\<close> is a quote.
\<close>

fun closed_values :: "string \<Rightarrow> bool" where
  "closed_values [] = True"
| "closed_values (c # cs) =
     ((case src_candidate (c # cs) of
         None \<Rightarrow> True
       | Some r \<Rightarrow>
           (case dropWhile (\<lambda>x. \<not> is_quote x \<and> x \<noteq> CHR ''>'') r of
              [] \<Rightarrow> False
            | q # _ \<Rightarrow> is_quote q)) \<and> closed_values cs)"

text \<open>The same for a text without \<^verbatim>\<open>>\<close>, the body of a chunk: every candidate is followed
  by a quote somewhere in the body.\<close>

fun closed_body :: "string \<Rightarrow> bool" where
  "closed_body [] = True"
| "closed_body (c # cs) =
     ((case src_candidate (c # cs) of None \<Rightarrow> True | Some r \<Rightarrow> list_ex is_quote r) \<and>
      closed_body cs)"

text \<open>The last src candidate of a body that has a value: the text before it, the value,
  and the text after the closing quote.\<close>

fun find_attr :: "string \<Rightarrow> (string \<times> string \<times> string) option" where
  "find_attr [] = None"
| "find_attr (c # cs) =
     (case find_attr cs of
        Some (b, v, a) \<Rightarrow> Some (c # b, v, a)
      | None \<Rightarrow>
          (case src_candidate (c # cs) of
             None \<Rightarrow> None
           | Some r \<Rightarrow>
               (let v = takeWhile (\<lambda>x. \<not> is_quote x) r
                in if v \<noteq> [] then Some ([], v, tl (dropWhile (\<lambda>x. \<not> is_quote x) r)) else None)))"

definition chunk_match :: "string \<Rightarrow> string \<Rightarrow> (string \<times> string \<times> string) option" where
  "chunk_match tag u =
     (case match_literal (CHR ''<'' # tag) u of None \<Rightarrow> None | Some u1 \<Rightarrow> find_attr u1)"

lemma match_literal_local:
  assumes "CHR ''>'' \<notin> set p"
  shows "match_literal p (u @ CHR ''>'' # s) = map_option (\<lambda>r. r @ CHR ''>'' # s) (match_literal p u)"
  using assms
proof (induction p u rule: match_literal.induct)
  case (1 s')
  show ?case by simp
next
  case (2 p ps)
  have "canonicalize CHR ''>'' = CHR ''>''"
    by (simp add: canonicalize_def lower_letters_def upper_letters_def)
  with 2 canonicalize_gt [of p] show ?case by auto
next
  case (3 p ps c cs)
  then show ?case by simp
qed

lemma src_candidate_local:
  assumes "CHR ''>'' \<notin> set u"
  shows "src_candidate (u @ CHR ''>'' # s) = map_option (\<lambda>r. r @ CHR ''>'' # s) (src_candidate u)"
proof (cases u)
  case Nil
  then show ?thesis by (simp add: src_candidate_def not_quote_gt)
next
  case (Cons w cs)
  have ml: "match_literal ''src='' (cs @ CHR ''>'' # s) =
      map_option (\<lambda>r. r @ CHR ''>'' # s) (match_literal ''src='' cs)"
    by (rule match_literal_local) simp
  show ?thesis
  proof (cases "match_literal ''src='' cs")
    case None
    with Cons ml show ?thesis by (simp add: src_candidate_def)
  next
    case (Some r1)
    with Cons ml show ?thesis
      by (cases r1) (simp_all add: src_candidate_def not_quote_gt)
  qed
qed

lemma src_candidate_suffix:
  "src_candidate u = Some r \<Longrightarrow> \<exists>w kw q. u = w # kw @ q # r \<and> js_whitespace w \<and>
     map canonicalize kw = map canonicalize ''src='' \<and> is_quote q"
proof (cases u)
  case Nil
  assume "src_candidate u = Some r"
  with Nil show ?thesis by (simp add: src_candidate_def)
next
  case (Cons w cs)
  assume a: "src_candidate u = Some r"
  with Cons have w: "js_whitespace w" by (auto simp: src_candidate_def split: if_splits)
  from a Cons w obtain q where m: "match_literal ''src='' cs = Some (q # r)" and q: "is_quote q"
    by (auto simp: src_candidate_def split: option.splits list.splits if_splits)
  from match_literal_decomp [OF m] obtain kw where
    "cs = kw @ q # r" "map canonicalize kw = map canonicalize ''src=''" by blast
  with Cons w q show ?thesis by blast
qed

lemma src_candidate_not_ws: "\<not> js_whitespace c \<Longrightarrow> src_candidate (c # cs) = None"
  by (simp add: src_candidate_def)

lemma closed_body_suffix: "closed_body (p @ u) \<Longrightarrow> closed_body u"
  by (induction p) auto

lemma closed_values_suffix: "closed_values (p @ u) \<Longrightarrow> closed_values u"
  by (induction p) auto

lemma dropWhile_until_quote:
  assumes "CHR ''>'' \<notin> set r"
  shows "(case dropWhile (\<lambda>x. \<not> is_quote x \<and> x \<noteq> CHR ''>'') (r @ CHR ''>'' # s) of
            [] \<Rightarrow> False | q # _ \<Rightarrow> is_quote q) = list_ex is_quote r"
  using assms by (induction r) (auto simp: not_quote_gt)

lemma closed_values_chunk:
  assumes "CHR ''>'' \<notin> set x"
  shows "closed_values (x @ CHR ''>'' # s) = (closed_body x \<and> closed_values s)"
  using assms
proof (induction x)
  case Nil
  show ?case by (simp add: src_candidate_def not_quote_gt)
next
  case (Cons c x)
  then have x: "CHR ''>'' \<notin> set x" and cx: "CHR ''>'' \<notin> set (c # x)" by simp_all
  have sc: "src_candidate ((c # x) @ CHR ''>'' # s) =
      map_option (\<lambda>r. r @ CHR ''>'' # s) (src_candidate (c # x))"
    by (rule src_candidate_local [OF cx])
  show ?case
  proof (cases "src_candidate (c # x)")
    case None
    with sc Cons.IH [OF x] show ?thesis by simp
  next
    case (Some r)
    from src_candidate_suffix [OF Some] cx have "CHR ''>'' \<notin> set r" by auto
    from dropWhile_until_quote [OF this, of s] Some sc Cons.IH [OF x] show ?thesis by simp
  qed
qed

lemma greedy_star_run:
  "list_all P g \<Longrightarrow> \<not> P q \<Longrightarrow> k (q # y) = Some x \<Longrightarrow> greedy_star P k (g @ q # y) = Some (g, x)"
  by (induction g) auto

lemma split_at_quote:
  "list_ex is_quote r \<Longrightarrow>
     \<exists>q. is_quote q \<and>
       r = takeWhile (\<lambda>x. \<not> is_quote x) r @ q # tl (dropWhile (\<lambda>x. \<not> is_quote x) r)"
  by (induction r) auto

lemma src_attribute_closed:
  assumes u: "CHR ''>'' \<notin> set u" and c: "src_candidate u = Some r" and q: "list_ex is_quote r"
  shows "src_attribute (u @ CHR ''>'' # s) =
           (let v = takeWhile (\<lambda>x. \<not> is_quote x) r
            in if v \<noteq> [] then Some (v, tl (dropWhile (\<lambda>x. \<not> is_quote x) r), s) else None)"
proof -
  define v where "v = takeWhile (\<lambda>x. \<not> is_quote x) r"
  define a where "a = tl (dropWhile (\<lambda>x. \<not> is_quote x) r)"
  from split_at_quote [OF q] obtain q2 where q2: "is_quote q2" and r: "r = v @ q2 # a"
    unfolding v_def a_def by blast
  from src_candidate_suffix [OF c] u have "CHR ''>'' \<notin> set r" by auto
  with r have a: "list_all (\<lambda>c. c \<noteq> CHR ''>'') a" by (auto simp: list_all_iff)
  have "greedy_star (\<lambda>c. c \<noteq> CHR ''>'') close_tag (a @ CHR ''>'' # s) = Some (a, s)"
    by (rule greedy_star_run [OF a]) (simp_all add: close_tag_def)
  then have cq: "closing_quote (q2 # a @ CHR ''>'' # s) = Some (a, s)"
    using q2 by (simp add: closing_quote_def)
  have sa: "src_attribute (u @ CHR ''>'' # s) =
      greedy_plus (\<lambda>c. \<not> is_quote c) closing_quote (v @ q2 # a @ CHR ''>'' # s)"
    using src_candidate_local [OF u, of s] c by (simp add: src_attribute_candidate r)
  have all: "list_all (\<lambda>c. \<not> is_quote c) v"
    unfolding v_def list_all_iff by (auto dest: set_takeWhileD)
  have "src_attribute (u @ CHR ''>'' # s) = (if v \<noteq> [] then Some (v, a, s) else None)"
  proof (cases v)
    case Nil
    with sa q2 show ?thesis by (simp add: greedy_plus_def)
  next
    case (Cons c v')
    with all have c: "\<not> is_quote c" and v': "list_all (\<lambda>c. \<not> is_quote c) v'" by simp_all
    have "greedy_star (\<lambda>c. \<not> is_quote c) closing_quote (v' @ q2 # a @ CHR ''>'' # s) =
        Some (v', a, s)"
      by (rule greedy_star_run [OF v']) (simp_all add: q2 cq)
    with sa Cons c show ?thesis by (simp add: greedy_plus_def)
  qed
  then show ?thesis unfolding v_def a_def Let_def .
qed

lemma greedy_star_find_attr:
  assumes "CHR ''>'' \<notin> set x" "closed_body x"
  shows "greedy_star (\<lambda>c. c \<noteq> CHR ''>'') src_attribute (x @ CHR ''>'' # s) =
           map_option (\<lambda>(b, v, a). (b, v, a, s)) (find_attr x)"
  using assms
proof (induction x)
  case Nil
  show ?case by (simp add: src_attribute_def not_quote_gt)
next
  case (Cons c x)
  then have x: "CHR ''>'' \<notin> set x" "closed_body x" and c: "c \<noteq> CHR ''>''"
    and cx: "CHR ''>'' \<notin> set (c # x)" by auto
  note IH = Cons.IH [OF x]
  show ?case
  proof (cases "find_attr x")
    case (Some r)
    with IH c show ?thesis by (auto split: prod.splits)
  next
    case None
    show ?thesis
    proof (cases "src_candidate (c # x)")
      case None
      then have "src_attribute ((c # x) @ CHR ''>'' # s) = None"
        using src_candidate_local [OF cx, of s] by (simp add: src_attribute_candidate)
      with \<open>find_attr x = None\<close> None IH c show ?thesis by simp
    next
      case (Some r)
      with Cons.prems(2) have "list_ex is_quote r" by simp
      from src_attribute_closed [OF cx Some this, of s] \<open>find_attr x = None\<close> Some IH c
      show ?thesis by (simp add: Let_def)
    qed
  qed
qed

lemma match_tag_chunk:
  assumes "CHR ''>'' \<notin> set u" "closed_body u" "CHR ''>'' \<notin> set tag"
  shows "match_tag tag (u @ CHR ''>'' # s) =
           map_option (\<lambda>(b, v, a). (b, v, a, s)) (chunk_match tag u)"
proof -
  have p: "CHR ''>'' \<notin> set (CHR ''<'' # tag)" using assms(3) by simp
  note ml = match_literal_local [OF p, of u s]
  show ?thesis
  proof (cases "match_literal (CHR ''<'' # tag) u")
    case None
    with ml show ?thesis by (simp add: match_tag_def chunk_match_def)
  next
    case (Some u1)
    from match_literal_decomp [OF Some] obtain t where t: "u = t @ u1" by blast
    with assms have "CHR ''>'' \<notin> set u1" "closed_body u1"
      by (auto dest: closed_body_suffix)
    from greedy_star_find_attr [OF this, of s] Some ml show ?thesis
      by (simp add: match_tag_def chunk_match_def)
  qed
qed


section \<open>A pass, chunk by chunk\<close>

text \<open>What a pass does to the body of a chunk, and whether it substitutes there.\<close>

fun chunk_rewrite :: "(string \<Rightarrow> string option) \<Rightarrow> string \<Rightarrow> string \<Rightarrow> string" where
  "chunk_rewrite k tag [] = []"
| "chunk_rewrite k tag (c # cs) =
     (case chunk_match tag (c # cs) of
        None \<Rightarrow> c # chunk_rewrite k tag cs
      | Some (b, v, a) \<Rightarrow>
          (case k v of
             None \<Rightarrow> c # cs
           | Some d \<Rightarrow> CHR ''<'' # tag @ b @ '' src=\"'' @ d @ ''\"'' @ a))"

fun chunk_subst :: "(string \<Rightarrow> string option) \<Rightarrow> string \<Rightarrow> string \<Rightarrow> bool" where
  "chunk_subst k tag [] = False"
| "chunk_subst k tag (c # cs) =
     (case chunk_match tag (c # cs) of
        None \<Rightarrow> chunk_subst k tag cs
      | Some (b, v, a) \<Rightarrow> k v \<noteq> None)"

lemma chunk_match_Nil [simp]: "chunk_match tag [] = None"
  by (simp add: chunk_match_def)

lemma pass_chunk:
  assumes "CHR ''>'' \<notin> set x" "closed_body x" "CHR ''>'' \<notin> set tag"
  shows "rewrite_text k tag (x @ CHR ''>'' # s) =
           chunk_rewrite k tag x @ CHR ''>'' # rewrite_text k tag s \<and>
         substitutes k tag (x @ CHR ''>'' # s) = (chunk_subst k tag x \<or> substitutes k tag s)"
  using assms(1,2)
proof (induction x)
  case Nil
  have "match_tag tag (CHR ''>'' # s) = None"
    using match_tag_chunk [of "[]" tag s] assms(3) by simp
  then show ?case by (simp add: rewrite_text_no_match substitutes_no_match)
next
  case (Cons c x)
  from Cons.prems have x: "CHR ''>'' \<notin> set x" "closed_body x" by simp_all
  note IH = Cons.IH [OF x]
  note m = match_tag_chunk [OF Cons.prems assms(3), of s]
  show ?case
  proof (cases "chunk_match tag (c # x)")
    case None
    with m have "match_tag tag (c # x @ CHR ''>'' # s) = None" by simp
    with None IH show ?thesis by (simp add: rewrite_text_no_match substitutes_no_match)
  next
    case (Some r)
    obtain b v a where r: "r = (b, v, a)" by (cases r)
    with Some m have mt: "match_tag tag ((c # x) @ CHR ''>'' # s) = Some (b, v, a, s)" by simp
    from rewrite_text_match [OF mt, of k] substitutes_match [OF mt, of k] Some r
    show ?thesis by (cases "k v") simp_all
  qed
qed

lemma match_tag_needs_gt: "CHR ''>'' \<notin> set s \<Longrightarrow> match_tag tag s = None"
proof (rule ccontr)
  assume s: "CHR ''>'' \<notin> set s" and "match_tag tag s \<noteq> None"
  then obtain b v a r where "match_tag tag s = Some (b, v, a, r)"
    by (cases "match_tag tag s") auto
  from match_tag_decomp [OF this] s show False by auto
qed

lemma pass_tail:
  "CHR ''>'' \<notin> set s \<Longrightarrow> rewrite_text k tag s = s \<and> \<not> substitutes k tag s"
proof (induction s)
  case Nil
  show ?case by simp
next
  case (Cons c s)
  with match_tag_needs_gt [of "c # s" tag] show ?case
    by (simp add: rewrite_text_no_match substitutes_no_match)
qed

lemma no_subst_same: "\<not> substitutes k tag s \<Longrightarrow> rewrite_text k tag s = s"
proof (induction "length s" arbitrary: s rule: less_induct)
  case less
  show ?case
  proof (cases s)
    case Nil
    then show ?thesis by simp
  next
    case (Cons c cs)
    show ?thesis
    proof (cases "match_tag tag s")
      case None
      with Cons less.prems have "\<not> substitutes k tag cs" by (simp add: substitutes_no_match)
      with less.hyps [of cs] Cons None show ?thesis by (simp add: rewrite_text_no_match)
    next
      case (Some r)
      obtain b v a rest where r: "r = (b, v, a, rest)" by (cases r)
      with Some have m: "match_tag tag s = Some (b, v, a, rest)" by simp
      from less.prems substitutes_match [OF m, of k] have k: "k v = None" "\<not> substitutes k tag rest"
        by auto
      from less.hyps [of rest] match_tag_shorter [OF m] k(2)
      have "rewrite_text k tag rest = rest" by simp
      with rewrite_text_match [OF m, of k] k(1) match_tag_split [OF m] show ?thesis by simp
    qed
  qed
qed

section \<open>The last src value of a chunk\<close>

lemma find_attr_prefix:
  "find_attr y = Some (b, v, a) \<Longrightarrow> find_attr (p @ y) = Some (p @ b, v, a)"
  by (induction p) auto

lemma find_attr_suffix_None: "find_attr (p @ y) = None \<Longrightarrow> find_attr y = None"
  using find_attr_prefix [of y _ _ _ p] by (cases "find_attr y") auto

lemma find_attr_no_ws:
  "list_all (\<lambda>c. \<not> js_whitespace c) z \<Longrightarrow>
     find_attr (z @ y) = map_option (\<lambda>(b, v, a). (z @ b, v, a)) (find_attr y)"
proof (induction z)
  case Nil
  show ?case by (cases "find_attr y") auto
next
  case (Cons c z)
  then show ?case
    by (cases "find_attr y") (auto simp: src_candidate_not_ws)
qed

lemma find_attr_shape:
  "find_attr x = Some (b, v, a) \<Longrightarrow>
     \<exists>y r. x = b @ y \<and> y \<noteq> [] \<and> src_candidate y = Some r \<and>
       v = takeWhile (\<lambda>c. \<not> is_quote c) r \<and> v \<noteq> [] \<and>
       a = tl (dropWhile (\<lambda>c. \<not> is_quote c) r) \<and> find_attr (tl y) = None"
proof (induction x arbitrary: b)
  case Nil
  then show ?case by simp
next
  case (Cons c x)
  show ?case
  proof (cases "find_attr x")
    case (Some t)
    obtain b' v' a' where t: "t = (b', v', a')" by (cases t)
    with Some Cons.prems have b: "b = c # b'" "v' = v" "a' = a" by auto
    from Cons.IH [of b'] Some t b obtain y r where "x = b' @ y \<and> y \<noteq> [] \<and> src_candidate y = Some r \<and>
       v = takeWhile (\<lambda>c. \<not> is_quote c) r \<and> v \<noteq> [] \<and>
       a = tl (dropWhile (\<lambda>c. \<not> is_quote c) r) \<and> find_attr (tl y) = None" by auto
    with b(1) show ?thesis by auto
  next
    case None
    with Cons.prems obtain r where "src_candidate (c # x) = Some r"
      "v = takeWhile (\<lambda>c. \<not> is_quote c) r" "v \<noteq> []"
      "a = tl (dropWhile (\<lambda>c. \<not> is_quote c) r)" "b = []"
      by (auto simp: Let_def split: option.splits if_splits)
    with None show ?thesis by auto
  qed
qed

definition inert :: "(string \<Rightarrow> string option) \<Rightarrow> string \<Rightarrow> bool" where
  "inert k x = (case find_attr x of None \<Rightarrow> True | Some (b, v, a) \<Rightarrow> k v = None)"

lemma inert_chunk:
  "inert k (p @ u) \<Longrightarrow> chunk_rewrite k tag u = u \<and> \<not> chunk_subst k tag u"
proof (induction u arbitrary: p)
  case Nil
  show ?case by simp
next
  case (Cons c u)
  show ?case
  proof (cases "chunk_match tag (c # u)")
    case None
    with Cons.IH [of "p @ [c]"] Cons.prems show ?thesis by simp
  next
    case (Some r)
    obtain b v a where r: "r = (b, v, a)" by (cases r)
    with Some obtain u1 where m: "match_literal (CHR ''<'' # tag) (c # u) = Some u1"
      and f: "find_attr u1 = Some (b, v, a)"
      by (auto simp: chunk_match_def split: option.splits)
    from match_literal_decomp [OF m] obtain t where "c # u = t @ u1" by blast
    with find_attr_prefix [OF f, of "p @ t"] have "find_attr (p @ c # u) = Some ((p @ t) @ b, v, a)"
      by simp
    with Cons.prems have "k v = None" by (simp add: inert_def)
    with Some r show ?thesis by simp
  qed
qed


section \<open>A chunk after a substitution\<close>

text \<open>What the values that are substituted must be like: not empty, free of quotes, of
  \<^verbatim>\<open>>\<close> and of white space, and themselves never replaced. Data URIs are.\<close>

definition good_values :: "(string \<Rightarrow> string option) \<Rightarrow> bool" where
  "good_values k =
     (\<forall>v d. k v = Some d \<longrightarrow>
        d \<noteq> [] \<and> list_all (\<lambda>c. \<not> is_quote c \<and> c \<noteq> CHR ''>'' \<and> \<not> js_whitespace c) d \<and>
        k d = None)"

lemma chunk_rewrite_shape:
  "(chunk_rewrite k tag x = x \<and> \<not> chunk_subst k tag x) \<or>
   (\<exists>pre u b v a d. x = pre @ u \<and> chunk_match tag u = Some (b, v, a) \<and> k v = Some d \<and>
      chunk_subst k tag x \<and>
      chunk_rewrite k tag x = pre @ CHR ''<'' # tag @ b @ '' src=\"'' @ d @ ''\"'' @ a)"
proof (induction x)
  case Nil
  show ?case by simp
next
  case (Cons c x)
  show ?case
  proof (cases "chunk_match tag (c # x)")
    case None
    from Cons show ?thesis
    proof
      assume "chunk_rewrite k tag x = x \<and> \<not> chunk_subst k tag x"
      with None show ?thesis by simp
    next
      assume "\<exists>pre u b v a d. x = pre @ u \<and> chunk_match tag u = Some (b, v, a) \<and> k v = Some d \<and>
        chunk_subst k tag x \<and>
        chunk_rewrite k tag x = pre @ CHR ''<'' # tag @ b @ '' src=\"'' @ d @ ''\"'' @ a"
      then obtain pre u b v a d where "x = pre @ u" "chunk_match tag u = Some (b, v, a)"
        "k v = Some d" "chunk_subst k tag x"
        "chunk_rewrite k tag x = pre @ CHR ''<'' # tag @ b @ '' src=\"'' @ d @ ''\"'' @ a" by blast
      with None have "c # x = (c # pre) @ u \<and> chunk_match tag u = Some (b, v, a) \<and> k v = Some d \<and>
        chunk_subst k tag (c # x) \<and>
        chunk_rewrite k tag (c # x) = (c # pre) @ CHR ''<'' # tag @ b @ '' src=\"'' @ d @ ''\"'' @ a"
        by simp
      then show ?thesis by blast
    qed
  next
    case (Some r)
    obtain b v a where r: "r = (b, v, a)" by (cases r)
    show ?thesis
    proof (cases "k v")
      case None
      with Some r show ?thesis by simp
    next
      case (Some d)
      with \<open>chunk_match tag (c # x) = Some r\<close> r
      have "c # x = [] @ (c # x) \<and> chunk_match tag (c # x) = Some (b, v, a) \<and> k v = Some d \<and>
        chunk_subst k tag (c # x) \<and>
        chunk_rewrite k tag (c # x) = [] @ CHR ''<'' # tag @ b @ '' src=\"'' @ d @ ''\"'' @ a"
        by simp
      then show ?thesis by blast
    qed
  qed
qed

lemma src_candidate_length:
  "src_candidate u = Some r \<Longrightarrow> r = drop 6 u"
proof -
  assume "src_candidate u = Some r"
  from src_candidate_suffix [OF this] obtain w kw q where
    u: "u = w # kw @ q # r" and kw: "map canonicalize kw = map canonicalize ''src=''" by blast
  from kw have "length (map canonicalize kw) = length (map canonicalize ''src='')" by simp
  then have "length kw = 4" by simp
  with u show ?thesis by simp
qed

lemma closed_body_prefix:
  assumes "closed_body y" "list_ex is_quote (drop 5 y)"
  shows "closed_body (p @ y)"
proof (induction p)
  case Nil
  show ?case using assms(1) by simp
next
  case (Cons c p)
  have "list_ex is_quote r" if "src_candidate (c # p @ y) = Some r" for r
  proof -
    from src_candidate_length [OF that] have r: "r = drop 5 (p @ y)" by simp
    have "set (drop 5 y) \<subseteq> set (drop (5 - length p) y)"
      by (rule set_drop_subset_set_drop) simp
    then have "set (drop 5 y) \<subseteq> set (drop 5 (p @ y))" by auto
    with assms(2) show ?thesis unfolding r list_ex_iff by blast
  qed
  with Cons show ?case by (auto split: option.splits)
qed

lemma closed_body_no_ws:
  "list_all (\<lambda>c. \<not> js_whitespace c) z \<Longrightarrow> closed_body (z @ a) = closed_body a"
  by (induction z) (simp_all add: src_candidate_not_ws)

lemma src_candidate_written:
  "src_candidate ('' src=\"'' @ r) = Some r"
  by (simp add: src_candidate_def js_whitespace_def is_quote_def)

lemma chunk_rewrite_props:
  assumes x: "CHR ''>'' \<notin> set x" "closed_body x" and tag: "CHR ''>'' \<notin> set tag"
    and k: "good_values k"
  shows "CHR ''>'' \<notin> set (chunk_rewrite k tag x) \<and> closed_body (chunk_rewrite k tag x) \<and>
         (if chunk_subst k tag x then inert k (chunk_rewrite k tag x)
          else chunk_rewrite k tag x = x)"
  using chunk_rewrite_shape [of k tag x]
proof
  assume "chunk_rewrite k tag x = x \<and> \<not> chunk_subst k tag x"
  with x show ?thesis by simp
next
  assume "\<exists>pre u b v a d. x = pre @ u \<and> chunk_match tag u = Some (b, v, a) \<and> k v = Some d \<and>
      chunk_subst k tag x \<and>
      chunk_rewrite k tag x = pre @ CHR ''<'' # tag @ b @ '' src=\"'' @ d @ ''\"'' @ a"
  then obtain pre u b v a d where xu: "x = pre @ u" and cm: "chunk_match tag u = Some (b, v, a)"
    and kv: "k v = Some d" and sub: "chunk_subst k tag x"
    and rw: "chunk_rewrite k tag x = pre @ CHR ''<'' # tag @ b @ '' src=\"'' @ d @ ''\"'' @ a"
    by blast
  from kv k have d: "d \<noteq> []"
    "list_all (\<lambda>c. \<not> is_quote c \<and> c \<noteq> CHR ''>'' \<and> \<not> js_whitespace c) d" "k d = None"
    unfolding good_values_def by blast+
  from cm obtain u1 where ml: "match_literal (CHR ''<'' # tag) u = Some u1"
    and fa: "find_attr u1 = Some (b, v, a)"
    by (auto simp: chunk_match_def split: option.splits)
  from match_literal_decomp [OF ml] obtain t0 where u: "u = t0 @ u1" by blast
  from find_attr_shape [OF fa] obtain y r where y: "u1 = b @ y" "src_candidate y = Some r"
    and a: "a = tl (dropWhile (\<lambda>c. \<not> is_quote c) r)" and after: "find_attr (tl y) = None"
    by blast
  from src_candidate_suffix [OF y(2)] obtain w kw q where yr: "y = w # kw @ q # r" by blast
  have x_eq: "x = (pre @ t0 @ b) @ y" using xu u y(1) by simp
  with x(2) have cy: "closed_body y" by (metis closed_body_suffix)
  with y(2) yr have "list_ex is_quote r" by simp
  from split_at_quote [OF this] a obtain q2 v' where r: "r = v' @ q2 # a" by blast
  have ya: "y = (w # kw @ q # v' @ [q2]) @ a" using yr r by simp
  then have tl_y: "tl y = (kw @ q # v' @ [q2]) @ a" by simp
  from cy ya have ca: "closed_body a" by (metis closed_body_suffix)
  from after tl_y have fa_a: "find_attr a = None" by (metis find_attr_suffix_None)
  have sub_x: "set pre \<subseteq> set x" "set b \<subseteq> set x" "set a \<subseteq> set x"
    using x_eq ya by auto
  let ?z = "''src=\"'' @ d @ ''\"''"
  let ?y' = "CHR '' '' # ?z @ a"
  let ?P = "pre @ CHR ''<'' # tag @ b"
  have x': "chunk_rewrite k tag x = ?P @ ?y'" using rw by simp
  have zws: "list_all (\<lambda>c. \<not> js_whitespace c) ?z"
    using d(2) by (auto simp: list_all_iff js_whitespace_def)
  have dq: "list_all (\<lambda>c. \<not> is_quote c) d" using d(2) by (auto simp: list_all_iff)
  have sc: "src_candidate ?y' = Some (d @ ''\"'' @ a)"
    using src_candidate_written [of "d @ ''\"'' @ a"] by simp
  have q_in: "list_ex is_quote (d @ ''\"'' @ a)" by (simp add: is_quote_def)
  have cz: "closed_body (?z @ a)" using closed_body_no_ws [OF zws] ca by simp
  have cy': "closed_body ?y'" using sc q_in cz by simp
  have "list_ex is_quote (drop 5 ?y')" by (simp add: is_quote_def)
  with cy' have closed: "closed_body (?P @ ?y')" by (rule closed_body_prefix)
  have gt: "CHR ''>'' \<notin> set (?P @ ?y')"
    using sub_x x(1) tag d(2) by (auto simp: list_all_iff)
  have "find_attr (?z @ a) = None" using find_attr_no_ws [OF zws, of a] fa_a by simp
  moreover have "takeWhile (\<lambda>c. \<not> is_quote c) (d @ ''\"'' @ a) = d"
    using dq by (simp add: takeWhile_tail list_all_iff is_quote_def)
  moreover have "dropWhile (\<lambda>c. \<not> is_quote c) (d @ ''\"'' @ a) = ''\"'' @ a"
    using dq by (simp add: dropWhile_append list_all_iff is_quote_def)
  ultimately have "find_attr ?y' = Some ([], d, a)"
    using sc d(1) by (simp add: Let_def)
  from find_attr_prefix [OF this, of ?P] have "find_attr (?P @ ?y') = Some (?P @ [], d, a)" .
  with d(3) have "inert k (?P @ ?y')" by (simp add: inert_def)
  with closed gt sub show ?thesis unfolding x' by simp
qed


section \<open>The three passes on a text with closed values\<close>

definition three_passes :: "(string \<Rightarrow> string option) \<Rightarrow> string \<Rightarrow> string" where
  "three_passes k h = rewrite_text k ''source'' (rewrite_text k ''video'' (rewrite_text k ''img'' h))"

text \<open>No pass substitutes anything in the text.\<close>

definition quiet :: "(string \<Rightarrow> string option) \<Rightarrow> string \<Rightarrow> bool" where
  "quiet k s =
     (\<not> substitutes k ''img'' s \<and> \<not> substitutes k ''video'' s \<and> \<not> substitutes k ''source'' s)"

lemma quiet_three_passes: "quiet k s \<Longrightarrow> three_passes k s = s"
  by (simp add: quiet_def three_passes_def no_subst_same)

lemma three_passes_quiet:
  assumes k: "good_values k"
  shows "closed_values h \<Longrightarrow> quiet k (three_passes k h)"
proof (induction "length h" arbitrary: h rule: less_induct)
  case less
  show ?case
  proof (cases "CHR ''>'' \<in> set h")
    case False
    then have "rewrite_text k t h = h \<and> \<not> substitutes k t h" for t
      by (rule pass_tail)
    then show ?thesis by (simp add: three_passes_def quiet_def)
  next
    case True
    define x where "x = takeWhile (\<lambda>c. c \<noteq> CHR ''>'') h"
    define s where "s = tl (dropWhile (\<lambda>c. c \<noteq> CHR ''>'') h)"
    have x: "CHR ''>'' \<notin> set x" unfolding x_def by (auto dest: set_takeWhileD)
    from True have "dropWhile (\<lambda>c. c \<noteq> CHR ''>'') h \<noteq> []" by simp
    moreover from this have "hd (dropWhile (\<lambda>c. c \<noteq> CHR ''>'') h) = CHR ''>''"
      using hd_dropWhile [of "\<lambda>c. c \<noteq> CHR ''>''" h] by simp
    ultimately have "dropWhile (\<lambda>c. c \<noteq> CHR ''>'') h = CHR ''>'' # s"
      unfolding s_def by (metis list.collapse)
    then have h: "h = x @ CHR ''>'' # s"
      unfolding x_def by (metis takeWhile_dropWhile_id)
    from less.prems closed_values_chunk [OF x, of s] h
    have cx: "closed_body x" and cs: "closed_values s" by simp_all
    have "length s < length h" using h by simp
    from less.hyps [OF this cs] have IH: "quiet k (three_passes k s)" .
    have tags: "CHR ''>'' \<notin> set ''img''" "CHR ''>'' \<notin> set ''video''" "CHR ''>'' \<notin> set ''source''"
      by simp_all
    define x1 where "x1 = chunk_rewrite k ''img'' x"
    define x2 where "x2 = chunk_rewrite k ''video'' x1"
    define x3 where "x3 = chunk_rewrite k ''source'' x2"
    note p1 = chunk_rewrite_props [OF x cx tags(1) k, folded x1_def]
    then have x1: "CHR ''>'' \<notin> set x1" "closed_body x1" by simp_all
    note p2 = chunk_rewrite_props [OF x1 tags(2) k, folded x2_def]
    then have x2: "CHR ''>'' \<notin> set x2" "closed_body x2" by simp_all
    note p3 = chunk_rewrite_props [OF x2 tags(3) k, folded x3_def]
    then have x3: "CHR ''>'' \<notin> set x3" "closed_body x3" by simp_all
    have r1: "rewrite_text k ''img'' h = x1 @ CHR ''>'' # rewrite_text k ''img'' s"
      unfolding h x1_def using pass_chunk [OF x cx tags(1)] by simp
    have r2: "rewrite_text k ''video'' (rewrite_text k ''img'' h) =
        x2 @ CHR ''>'' # rewrite_text k ''video'' (rewrite_text k ''img'' s)"
      unfolding r1 x2_def using pass_chunk [OF x1 tags(2)] by simp
    have r3: "three_passes k h = x3 @ CHR ''>'' # three_passes k s"
      unfolding three_passes_def r2 x3_def using pass_chunk [OF x2 tags(3)] by simp
    have settled: "inert k x3 \<or>
        (x3 = x \<and> \<not> chunk_subst k ''img'' x \<and> \<not> chunk_subst k ''video'' x \<and>
         \<not> chunk_subst k ''source'' x)"
    proof (cases "chunk_subst k ''img'' x")
      case True
      with p1 have i: "inert k x1" by simp
      from inert_chunk [of k "[]" x1 "''video''"] i have "x2 = x1" by (simp add: x2_def)
      moreover from inert_chunk [of k "[]" x1 "''source''"] i have "chunk_rewrite k ''source'' x1 = x1"
        by simp
      ultimately show ?thesis using i by (simp add: x3_def)
    next
      case False
      with p1 have e1: "x1 = x" by simp
      show ?thesis
      proof (cases "chunk_subst k ''video'' x")
        case True
        with p2 e1 have i: "inert k x2" by simp
        from inert_chunk [of k "[]" x2 "''source''"] i have "x3 = x2" by (simp add: x3_def)
        with i show ?thesis by simp
      next
        case False
        with p2 e1 have e2: "x2 = x" by simp
        with p3 e1 False \<open>\<not> chunk_subst k ''img'' x\<close> show ?thesis
          by (cases "chunk_subst k ''source'' x") simp_all
      qed
    qed
    have none: "\<not> chunk_subst k t x3" if "t \<in> {''img'', ''video'', ''source''}" for t
      using settled
    proof
      assume "inert k x3"
      with inert_chunk [of k "[]" x3 t] show ?thesis by simp
    next
      assume "x3 = x \<and> \<not> chunk_subst k ''img'' x \<and> \<not> chunk_subst k ''video'' x \<and>
         \<not> chunk_subst k ''source'' x"
      with that show ?thesis by auto
    qed
    have "\<not> substitutes k t (three_passes k h)" if t: "t \<in> {''img'', ''video'', ''source''}" for t
    proof -
      from t have "CHR ''>'' \<notin> set t" by auto
      from pass_chunk [OF x3 this, of k "three_passes k s"] none [OF t] IH t
      show ?thesis unfolding r3 by (auto simp: quiet_def)
    qed
    then show ?thesis by (simp add: quiet_def)
  qed
qed

section \<open>Data URIs as src values\<close>

lemma new_src_good: "good_values (new_src fs conv)"
proof -
  have "d \<noteq> [] \<and> list_all (\<lambda>c. \<not> is_quote c \<and> c \<noteq> CHR ''>'' \<and> \<not> js_whitespace c) d \<and>
        new_src fs conv d = None" if "new_src fs conv v = Some d" for v d
  proof -
    from that have "data_uri fs (resolveImagePath conv v) = Some d"
      by (auto simp: new_src_def split: if_splits)
    from data_uri_plain [OF this] show ?thesis by (simp add: new_src_def)
  qed
  then show ?thesis unfolding good_values_def by blast
qed

section \<open>The files a run writes are no assets\<close>

lemma basename_suffix:
  assumes "sep \<notin> set x" "x \<noteq> []"
  shows "\<exists>a. basename (p @ x) = a @ x \<and> sep \<notin> set a"
proof -
  have "rev x \<noteq> []" using assms(2) by simp
  then obtain c cs where cs: "rev x = c # cs" by (cases "rev x") auto
  then have "c \<in> set x" by (metis list.set_intros(1) set_rev)
  then have c: "c \<noteq> sep" using assms(1) by auto
  have "dropWhile (\<lambda>c. c = sep) (rev (p @ x)) = rev x @ rev p"
    using cs c by simp
  moreover have "takeWhile (\<lambda>c. c \<noteq> sep) (rev x @ rev p) = rev x @ takeWhile (\<lambda>c. c \<noteq> sep) (rev p)"
    using assms(1) by (intro takeWhile_append2) auto
  ultimately have "basename (p @ x) = rev (takeWhile (\<lambda>c. c \<noteq> sep) (rev p)) @ x"
    by (simp add: basename_def)
  moreover have "sep \<notin> set (rev (takeWhile (\<lambda>c. c \<noteq> sep) (rev p)))"
    by (auto dest: set_takeWhileD)
  ultimately show ?thesis by blast
qed

lemma extname_suffix:
  assumes "CHR ''.'' \<notin> set e" "sep \<notin> set e" "e \<noteq> []"
  shows "extname (p @ CHR ''.'' # e) = [] \<or> extname (p @ CHR ''.'' # e) = CHR ''.'' # e"
proof -
  have "sep \<notin> set (CHR ''.'' # e)" using assms(2) by (simp add: sep_def)
  from basename_suffix [OF this, of p] obtain a where
    b: "basename (p @ CHR ''.'' # e) = a @ CHR ''.'' # e" by auto
  have "takeWhile (\<lambda>c. c \<noteq> CHR ''.'') (rev (a @ CHR ''.'' # e)) = rev e"
    using assms(1) by (auto simp: takeWhile_tail)
  then show ?thesis unfolding extname_def b Let_def by simp
qed

definition standard_extensions :: "converter \<Rightarrow> bool" where
  "standard_extensions conv =
     (supportedExtensions conv =
        [''.gif'', ''.webp'', ''.png'', ''.jpg'', ''.jpeg'', ''.svg'', ''.bmp'', ''.mp4''])"

lemma new_converter_standard: "standard_extensions (new_converter d)"
  by (simp add: standard_extensions_def new_converter_def)

lemma written_path_no_asset:
  assumes "standard_extensions conv" "endsWith p ''.html'' \<or> endsWith p ''.backup''"
  shows "toLowerCase (extname p) \<notin> set (supportedExtensions conv)"
proof -
  have low: "toLowerCase [] = []" "toLowerCase ''.html'' = ''.html''"
    "toLowerCase ''.backup'' = ''.backup''"
    by (simp_all add: toLowerCase_def to_lower_def upper_letters_def lower_letters_def)
  from assms(2) have "extname p \<in> {[], ''.html'', ''.backup''}"
  proof
    assume "endsWith p ''.html''"
    then obtain a where "p = a @ CHR ''.'' # ''html''" by (auto simp: endsWith_suffix suffix_def)
    with extname_suffix [of "''html''" a] show ?thesis by (auto simp: sep_def)
  next
    assume "endsWith p ''.backup''"
    then obtain a where "p = a @ CHR ''.'' # ''backup''" by (auto simp: endsWith_suffix suffix_def)
    with extname_suffix [of "''backup''" a] show ?thesis by (auto simp: sep_def)
  qed
  with low have "toLowerCase (extname p) \<in> {[], ''.html'', ''.backup''}" by auto
  with assms(1) show ?thesis unfolding standard_extensions_def by auto
qed

lemma new_src_config:
  "assetsDir c' = assetsDir c \<Longrightarrow> supportedExtensions c' = supportedExtensions c \<Longrightarrow>
     new_src fs c' = new_src fs c"
  by (rule ext) (simp add: new_src_def resolveImagePath_def Let_def)

lemma new_src_assets:
  assumes "\<And>p. toLowerCase (extname p) \<in> set (supportedExtensions conv) \<Longrightarrow>
             map_of fs' p = map_of fs p"
  shows "new_src fs' conv = new_src fs conv"
proof
  fix v
  show "new_src fs' conv v = new_src fs conv v"
    using assms [of "resolveImagePath conv v"] by (simp add: new_src_def data_uri_def)
qed

section \<open>One file\<close>

lemma rewrite_html_text: "fst (rewrite_html fs conv h) = three_passes (new_src fs conv) h"
  using rewrite_html_pure [of fs conv h] by (auto simp: Let_def three_passes_def)

lemma rewrite_html_modified:
  "fst (snd (rewrite_html fs conv h)) = (\<not> quiet (new_src fs conv) h)"
proof -
  let ?k = "new_src fs conv"
  let ?h1 = "rewrite_text ?k ''img'' h"
  let ?h2 = "rewrite_text ?k ''video'' ?h1"
  from rewrite_html_pure [of fs conv h]
  have m: "fst (snd (rewrite_html fs conv h)) =
      (substitutes ?k ''img'' h \<or> substitutes ?k ''video'' ?h1 \<or> substitutes ?k ''source'' ?h2)"
    by (auto simp: Let_def)
  show ?thesis
  proof (cases "substitutes ?k ''img'' h")
    case True
    with m show ?thesis by (simp add: quiet_def)
  next
    case False
    then have h1: "?h1 = h" by (rule no_subst_same)
    show ?thesis
    proof (cases "substitutes ?k ''video'' h")
      case True
      with m h1 show ?thesis by (simp add: quiet_def)
    next
      case False
      then have "rewrite_text ?k ''video'' h = h" by (rule no_subst_same)
      with m h1 False \<open>\<not> substitutes ?k ''img'' h\<close> show ?thesis by (simp add: quiet_def)
    qed
  qed
qed

lemma rewrite_html_conv:
  "\<exists>es. snd (snd (rewrite_html fs conv h)) = conv\<lparr>errors := errors conv @ es\<rparr>"
  using rewrite_html_pure [of fs conv h] by (auto simp: Let_def)

lemma processHtmlFile_config:
  "htmlDir (fst (processHtmlFile conv fs f)) = htmlDir conv \<and>
   assetsDir (fst (processHtmlFile conv fs f)) = assetsDir conv \<and>
   supportedExtensions (fst (processHtmlFile conv fs f)) = supportedExtensions conv"
proof (cases "readFileSync fs f")
  case (Inl e)
  then show ?thesis by (simp add: processHtmlFile_def)
next
  case (Inr h)
  obtain h' m c' where rw: "rewrite_html fs conv h = (h', m, c')" by (cases "rewrite_html fs conv h")
  with rewrite_html_conv [of fs conv h] obtain es where "c' = conv\<lparr>errors := errors conv @ es\<rparr>"
    by auto
  then have "htmlDir c' = htmlDir conv" "assetsDir c' = assetsDir conv"
    "supportedExtensions c' = supportedExtensions conv" by simp_all
  with Inr rw show ?thesis
    by (auto simp: processHtmlFile_def Let_def split: sum.splits)
qed

lemma processHtmlFile_quiet:
  assumes "\<And>h. map_of fs f = Some (File h) \<Longrightarrow> quiet (new_src fs conv) h"
  shows "snd (processHtmlFile conv fs f) = fs \<and>
         processedFiles (fst (processHtmlFile conv fs f)) = processedFiles conv"
proof (cases "readFileSync fs f")
  case (Inl e)
  then show ?thesis by (simp add: processHtmlFile_def)
next
  case (Inr h)
  then have "map_of fs f = Some (File h)"
    by (auto simp: readFileSync_def split: option.splits fnode.splits)
  from assms [OF this] have nm: "\<not> fst (snd (rewrite_html fs conv h))"
    by (simp add: rewrite_html_modified)
  obtain h' m c' where rw: "rewrite_html fs conv h = (h', m, c')" by (cases "rewrite_html fs conv h")
  with rewrite_html_conv [of fs conv h] obtain es where "c' = conv\<lparr>errors := errors conv @ es\<rparr>"
    by auto
  then have "processedFiles c' = processedFiles conv" by simp
  with Inr rw nm show ?thesis by (simp add: processHtmlFile_def)
qed

lemma processHtmlFile_new_src:
  assumes "standard_extensions conv" "endsWith f ''.html''"
  shows "new_src (snd (processHtmlFile conv fs f)) conv = new_src fs conv"
proof (rule new_src_assets)
  fix p
  assume p: "toLowerCase (extname p) \<in> set (supportedExtensions conv)"
  have "endsWith (f @ ''.backup'') ''.backup''" by (simp add: endsWith_def)
  with written_path_no_asset [OF assms(1), of "f @ ''.backup''"]
    written_path_no_asset [OF assms(1), of f] assms(2) p
  have "p \<noteq> f" "p \<noteq> f @ ''.backup''" by auto
  then show "map_of (snd (processHtmlFile conv fs f)) p = map_of fs p"
    by (rule processHtmlFile_other)
qed

lemma processHtmlFile_settles:
  assumes "\<And>h. map_of fs f = Some (File h) \<Longrightarrow> closed_values h \<or> quiet (new_src fs conv) h"
    and "map_of (snd (processHtmlFile conv fs f)) f = Some (File h')"
  shows "quiet (new_src fs conv) h'"
proof (cases "map_of fs f")
  case None
  with assms(2) show ?thesis by (simp add: processHtmlFile_fs)
next
  case (Some n)
  show ?thesis
  proof (cases n)
    case Dir
    with Some assms(2) show ?thesis by (simp add: processHtmlFile_fs)
  next
    case (File h)
    with Some have h: "map_of fs f = Some (File h)" by simp
    show ?thesis
    proof (cases "quiet (new_src fs conv) h")
      case True
      with processHtmlFile_quiet [of fs f conv] h assms(2) show ?thesis by simp
    next
      case False
      with assms(1) [OF h] have "closed_values h" by simp
      from three_passes_quiet [OF new_src_good this]
      have q: "quiet (new_src fs conv) (three_passes (new_src fs conv) h)" .
      from False h have "map_of (snd (processHtmlFile conv fs f)) f =
          Some (File (three_passes (new_src fs conv) h))"
        by (simp add: processHtmlFile_fs rewrite_html_modified rewrite_html_text update_conv')
      with assms(2) q show ?thesis by simp
    qed
  qed
qed

section \<open>A run settles every file\<close>

lemma processAll_settles:
  assumes "standard_extensions conv" "\<forall>g\<in>S. endsWith g ''.html''" "set files \<subseteq> S" "D \<subseteq> S"
    and "\<forall>g\<in>S. \<forall>h. map_of fs g = Some (File h) \<longrightarrow>
           closed_values h \<or> quiet (new_src fs conv) h"
    and "\<forall>g\<in>D. \<forall>h. map_of fs g = Some (File h) \<longrightarrow> quiet (new_src fs conv) h"
  shows "new_src (snd (processAll conv fs files)) conv = new_src fs conv \<and>
         (\<forall>g\<in>D \<union> set files. \<forall>h. map_of (snd (processAll conv fs files)) g = Some (File h) \<longrightarrow>
            quiet (new_src fs conv) h)"
  using assms
proof (induction files arbitrary: conv fs D)
  case Nil
  then show ?case by simp
next
  case (Cons f files)
  let ?k = "new_src fs conv"
  obtain c1 fs1 where p: "processHtmlFile conv fs f = (c1, fs1)" by (cases "processHtmlFile conv fs f")
  from Cons.prems(3) have fS: "f \<in> S" by simp
  with Cons.prems(2) have f: "endsWith f ''.html''" by blast
  from processHtmlFile_config [of conv fs f] p
  have cfg: "assetsDir c1 = assetsDir conv" "supportedExtensions c1 = supportedExtensions conv"
    by simp_all
  then have std1: "standard_extensions c1" using Cons.prems(1) by (simp add: standard_extensions_def)
  from processHtmlFile_new_src [OF Cons.prems(1) f, of fs] p
  have k1: "new_src fs1 conv = ?k" by simp
  have kc: "new_src fs' c1 = new_src fs' conv" for fs'
    using cfg by (rule new_src_config)
  have other: "map_of fs1 g = map_of fs g" if "g \<in> S" "g \<noteq> f" for g
  proof -
    from that(1) Cons.prems(2) have "endsWith g ''.html''" by blast
    then have "g \<noteq> f @ ''.backup''" by (rule backup_path_not_html)
    with processHtmlFile_other [OF that(2) this, of conv fs] p show ?thesis by simp
  qed
  have settled: "quiet ?k h" if "map_of fs1 f = Some (File h)" for h
  proof (rule processHtmlFile_settles)
    show "map_of (snd (processHtmlFile conv fs f)) f = Some (File h)" using that p by simp
    show "closed_values h \<or> quiet ?k h" if "map_of fs f = Some (File h)" for h
      using Cons.prems(5) fS that by blast
  qed
  have cq1: "\<forall>g\<in>S. \<forall>h. map_of fs1 g = Some (File h) \<longrightarrow> closed_values h \<or> quiet (new_src fs1 c1) h"
  proof (intro ballI allI impI)
    fix g h assume g: "g \<in> S" "map_of fs1 g = Some (File h)"
    show "closed_values h \<or> quiet (new_src fs1 c1) h"
    proof (cases "g = f")
      case True
      with g settled show ?thesis by (simp add: kc k1)
    next
      case False
      with other [OF g(1)] g(2) Cons.prems(5) g(1) show ?thesis by (simp add: kc k1)
    qed
  qed
  have q1: "\<forall>g\<in>insert f D. \<forall>h. map_of fs1 g = Some (File h) \<longrightarrow> quiet (new_src fs1 c1) h"
  proof (intro ballI allI impI)
    fix g h assume g: "g \<in> insert f D" "map_of fs1 g = Some (File h)"
    show "quiet (new_src fs1 c1) h"
    proof (cases "g = f")
      case True
      with g settled show ?thesis by (simp add: kc k1)
    next
      case False
      with g(1) Cons.prems(4) have "g \<in> D" "g \<in> S" by auto
      with other [OF this(2) False] g(2) Cons.prems(6) show ?thesis by (simp add: kc k1)
    qed
  qed
  from Cons.prems(3,4) fS have sub: "set files \<subseteq> S" "insert f D \<subseteq> S" by auto
  from Cons.IH [OF std1 Cons.prems(2) sub cq1 q1]
  have "new_src (snd (processAll c1 fs1 files)) c1 = new_src fs1 c1"
    and "\<forall>g\<in>insert f D \<union> set files. \<forall>h. map_of (snd (processAll c1 fs1 files)) g = Some (File h) \<longrightarrow>
            quiet (new_src fs1 c1) h" by blast+
  with p show ?case by (simp add: kc k1)
qed

lemma processAll_config:
  "htmlDir (fst (processAll conv fs files)) = htmlDir conv \<and>
   assetsDir (fst (processAll conv fs files)) = assetsDir conv \<and>
   supportedExtensions (fst (processAll conv fs files)) = supportedExtensions conv"
proof (induction files arbitrary: conv fs)
  case Nil
  show ?case by simp
next
  case (Cons f files)
  obtain c1 fs1 where p: "processHtmlFile conv fs f = (c1, fs1)" by (cases "processHtmlFile conv fs f")
  with processHtmlFile_config [of conv fs f] Cons [of c1 fs1] show ?case by simp
qed

lemma processAll_quiet:
  assumes "\<forall>g\<in>set files. \<forall>h. map_of fs g = Some (File h) \<longrightarrow> quiet (new_src fs conv) h"
  shows "snd (processAll conv fs files) = fs \<and>
         processedFiles (fst (processAll conv fs files)) = processedFiles conv"
  using assms
proof (induction files arbitrary: conv)
  case Nil
  show ?case by simp
next
  case (Cons f files)
  obtain c1 fs1 where p: "processHtmlFile conv fs f = (c1, fs1)" by (cases "processHtmlFile conv fs f")
  from processHtmlFile_quiet [of fs f conv] Cons.prems p
  have 1: "fs1 = fs" "processedFiles c1 = processedFiles conv" by simp_all
  from processHtmlFile_config [of conv fs f] p
  have "new_src fs c1 = new_src fs conv" by (intro new_src_config) simp_all
  with Cons.prems have "\<forall>g\<in>set files. \<forall>h. map_of fs g = Some (File h) \<longrightarrow> quiet (new_src fs c1) h"
    by simp
  from Cons.IH [OF this] p 1 show ?case by simp
qed

lemma run_cases:
  "run conv fs = (fst (run conv fs), conv, fs) \<and> fst (run conv fs) \<noteq> Summary \<or>
   run conv fs = (Summary, processAll conv fs (findHtmlFiles conv fs))"
  by (auto simp: run_def Let_def split: prod.splits)

text \<open>
  C2 (as amended). Let every HTML file found in the directory have closed src values:
  wherever white space, \<^verbatim>\<open>src=\<close> and a quote occur in the file, the next quote comes
  before the next \<^verbatim>\<open>>\<close>. Then a second run of the converter, on the file system left by
  a first run, writes nothing: the file system is the same after it and no file is
  recorded as processed; and when the first run reached the files, the three passes
  return every HTML file as it is, with the modified flag unset. A callback called with
  a src that starts with \<^verbatim>\<open>data:\<close> returns the matched text and leaves the flag and the
  converter as they were. (Without closed values a second run can substitute again: a
  src value that contains \<^verbatim>\<open>>\<close> hides a later src attribute of the tag from the first
  run, and the data URI written in its place no longer does.)
\<close>

theorem second_run_changes_nothing:
  assumes closed: "\<forall>f\<in>set (findHtmlFiles (new_converter d) fs).
             \<forall>h. map_of fs f = Some (File h) \<longrightarrow> closed_values h"
  shows "(let c = new_converter d; fs1 = snd (snd (run c fs)) in
           snd (snd (run c fs1)) = fs1 \<and>
           processedFiles (fst (snd (run c fs1))) = [] \<and>
           (fst (run c fs) = Summary \<longrightarrow>
              (\<forall>f\<in>set (findHtmlFiles c fs1). \<forall>h. map_of fs1 f = Some (File h) \<longrightarrow>
                 fst (rewrite_html fs1 c h) = h \<and> \<not> fst (snd (rewrite_html fs1 c h))))) \<and>
         (startsWith src ''data:'' \<longrightarrow>
            tag_callback fs2 tag m beforeSrc src afterSrc (modified, conv) = (m, modified, conv))"
proof -
  let ?c = "new_converter d"
  let ?fs1 = "snd (snd (run ?c fs))"
  let ?files = "findHtmlFiles ?c fs"
  have pf: "processedFiles ?c = []" by (simp add: new_converter_def)
  have early: "snd (snd (run ?c fs')) = fs' \<and> processedFiles (fst (snd (run ?c fs'))) = []"
    if "run ?c fs' = (fst (run ?c fs'), ?c, fs')" for fs'
    using pf by (metis that fst_conv snd_conv)
  have guard: "startsWith src ''data:'' \<longrightarrow>
      tag_callback fs2 tag m beforeSrc src afterSrc (modified, conv) = (m, modified, conv)"
    by (simp add: tag_callback_def)
  have main: "snd (snd (run ?c ?fs1)) = ?fs1 \<and>
           processedFiles (fst (snd (run ?c ?fs1))) = [] \<and>
           (fst (run ?c fs) = Summary \<longrightarrow>
              (\<forall>f\<in>set (findHtmlFiles ?c ?fs1). \<forall>h. map_of ?fs1 f = Some (File h) \<longrightarrow>
                 fst (rewrite_html ?fs1 ?c h) = h \<and> \<not> fst (snd (rewrite_html ?fs1 ?c h))))"
  proof (cases "fst (run ?c fs) = Summary")
    case False
    with run_cases [of ?c fs] have r: "run ?c fs = (fst (run ?c fs), ?c, fs)" by auto
    then have "?fs1 = fs" by (metis snd_conv)
    with early [of fs] r False show ?thesis by simp
  next
    case True
    with run_cases [of ?c fs] have r: "run ?c fs = (Summary, processAll ?c fs ?files)" by auto
    then have fs1: "?fs1 = snd (processAll ?c fs ?files)" by simp
    have html: "\<forall>g\<in>set ?files. endsWith g ''.html''" using findHtmlFiles_props by blast
    have cq: "\<forall>g\<in>set ?files. \<forall>h. map_of fs g = Some (File h) \<longrightarrow>
           closed_values h \<or> quiet (new_src fs ?c) h"
      using closed by blast
    have "\<forall>g\<in>{}. \<forall>h. map_of fs g = Some (File h) \<longrightarrow> quiet (new_src fs ?c) h" by simp
    from processAll_settles [OF new_converter_standard html subset_refl empty_subsetI cq this]
    have k: "new_src ?fs1 ?c = new_src fs ?c"
      and q: "\<forall>g\<in>set ?files. \<forall>h. map_of ?fs1 g = Some (File h) \<longrightarrow> quiet (new_src fs ?c) h"
      unfolding fs1 by simp_all
    have same: "findHtmlFiles ?c ?fs1 = ?files"
      by (rule findHtmlFiles_evolves [OF run_evolves])
    have q1: "\<forall>g\<in>set (findHtmlFiles ?c ?fs1). \<forall>h. map_of ?fs1 g = Some (File h) \<longrightarrow>
        quiet (new_src ?fs1 ?c) h"
      using q unfolding same k .
    have second: "snd (snd (run ?c ?fs1)) = ?fs1 \<and> processedFiles (fst (snd (run ?c ?fs1))) = []"
      using run_cases [of ?c ?fs1]
    proof
      assume "run ?c ?fs1 = (fst (run ?c ?fs1), ?c, ?fs1) \<and> fst (run ?c ?fs1) \<noteq> Summary"
      then show ?thesis using early [of ?fs1] by blast
    next
      assume r2: "run ?c ?fs1 = (Summary, processAll ?c ?fs1 (findHtmlFiles ?c ?fs1))"
      from processAll_quiet [OF q1] pf show ?thesis unfolding r2 by simp
    qed
    have "fst (rewrite_html ?fs1 ?c h) = h \<and> \<not> fst (snd (rewrite_html ?fs1 ?c h))"
      if "f \<in> set (findHtmlFiles ?c ?fs1)" "map_of ?fs1 f = Some (File h)" for f h
    proof -
      from q1 that have "quiet (new_src ?fs1 ?c) h" by blast
      then show ?thesis
        by (simp add: rewrite_html_text rewrite_html_modified quiet_three_passes)
    qed
    with second show ?thesis by blast
  qed
  from main guard show ?thesis unfolding Let_def by blast
qed

definition fs_closed_values :: filesystem where
  "fs_closed_values =
     [(''/w/B64'', Dir), (''/w/assets'', Dir), (''/w/assets/a.png'', File ''abc''),
      (''/w/assets/m.mp4'', File ''x''),
      (''/w/B64/index.html'',
       File ''<img src=\"a.png\" alt=\"a > b\"><video src='assets/m.mp4'></video>'')]"

definition fs_unclosed_value :: filesystem where
  "fs_unclosed_value =
     [(''/w/B64'', Dir), (''/w/assets'', Dir), (''/w/assets/a.png'', File ''abc''),
      (''/w/assets/b.png'', File ''x''),
      (''/w/B64/index.html'', File ''<img src=\"x>/a.png\" src=\"b.png\">'')]"

theorem second_run_changes_nothing_witness:
  "closed_values ''<img src=\"a.png\" alt=\"a > b\"><video src='assets/m.mp4'></video>'' \<and>
   map_of (snd (snd (run (new_converter ''/w/B64'') fs_closed_values))) ''/w/B64/index.html'' =
     Some (File ''<img src=\"data:image/png;base64,YWJj\" alt=\"a > b\"><video src=\"data:video/mp4;base64,eA==\"></video>'') \<and>
   snd (snd (run (new_converter ''/w/B64'') (snd (snd (run (new_converter ''/w/B64'') fs_closed_values))))) =
     snd (snd (run (new_converter ''/w/B64'') fs_closed_values)) \<and>
   processedFiles (fst (snd (run (new_converter ''/w/B64'')
     (snd (snd (run (new_converter ''/w/B64'') fs_closed_values)))))) = []"
proof -
  let ?c = "new_converter ''/w/B64''"
  let ?h = "''<img src=\"a.png\" alt=\"a > b\"><video src='assets/m.mp4'></video>''"
  have 1: "findHtmlFiles ?c fs_closed_values = [''/w/B64/index.html'']" by code_simp
  have 2: "map_of fs_closed_values ''/w/B64/index.html'' = Some (File ?h)"
    by (simp add: fs_closed_values_def)
  have 3: "closed_values ?h" by code_simp
  have 4: "map_of (snd (snd (run ?c fs_closed_values))) ''/w/B64/index.html'' =
     Some (File ''<img src=\"data:image/png;base64,YWJj\" alt=\"a > b\"><video src=\"data:video/mp4;base64,eA==\"></video>'')"
    by code_simp
  have "\<forall>f\<in>set (findHtmlFiles ?c fs_closed_values).
      \<forall>h. map_of fs_closed_values f = Some (File h) \<longrightarrow> closed_values h"
    unfolding 1 using 2 3 by simp
  from second_run_changes_nothing [OF this, unfolded Let_def] 3 4 show ?thesis by blast
qed

theorem unclosed_value_converted_again:
  "map_of fs_unclosed_value ''/w/B64/index.html'' = Some (File ''<img src=\"x>/a.png\" src=\"b.png\">'') \<and>
   map_of (snd (snd (run (new_converter ''/w/B64'') fs_unclosed_value))) ''/w/B64/index.html'' =
     Some (File ''<img src=\"data:image/png;base64,YWJj\" src=\"b.png\">'') \<and>
   map_of (snd (snd (run (new_converter ''/w/B64'')
       (snd (snd (run (new_converter ''/w/B64'') fs_unclosed_value)))))) ''/w/B64/index.html'' =
     Some (File ''<img src=\"data:image/png;base64,YWJj\" src=\"data:image/png;base64,eA==\">'') \<and>
   processedFiles (fst (snd (run (new_converter ''/w/B64'')
       (snd (snd (run (new_converter ''/w/B64'') fs_unclosed_value)))))) = [''/w/B64/index.html'']"
  by code_simp

section \<open>Soft failures do not stop the run\<close>

lemma processAll_other:
  assumes "q \<notin> set files" "\<forall>f\<in>set files. q \<noteq> f @ ''.backup''"
  shows "map_of (snd (processAll conv fs files)) q = map_of fs q"
  using assms
proof (induction files arbitrary: conv fs)
  case Nil
  show ?case by simp
next
  case (Cons f files)
  obtain c1 fs1 where p: "processHtmlFile conv fs f = (c1, fs1)" by (cases "processHtmlFile conv fs f")
  from Cons.prems have "q \<noteq> f" "q \<noteq> f @ ''.backup''" by simp_all
  from processHtmlFile_other [OF this, of conv fs] p have "map_of fs1 q = map_of fs q" by simp
  with Cons.IH [of c1 fs1] Cons.prems p show ?case by simp
qed

lemma processHtmlFile_file_text:
  assumes "map_of fs f = Some (File h)"
  shows "map_of (snd (processHtmlFile conv fs f)) f = Some (File (fst (rewrite_html fs conv h)))"
proof (cases "fst (snd (rewrite_html fs conv h))")
  case True
  with assms show ?thesis by (simp add: processHtmlFile_fs update_conv')
next
  case False
  then have "quiet (new_src fs conv) h" by (simp add: rewrite_html_modified)
  then have "fst (rewrite_html fs conv h) = h" by (simp add: rewrite_html_text quiet_three_passes)
  with False assms show ?thesis by (simp add: processHtmlFile_fs)
qed

lemma processAll_each_file:
  assumes "standard_extensions conv" "\<forall>f\<in>set files. endsWith f ''.html''" "distinct files"
    and "g \<in> set files" "map_of fs g = Some (File h)"
  shows "map_of (snd (processAll conv fs files)) g = Some (File (fst (rewrite_html fs conv h)))"
  using assms
proof (induction files arbitrary: conv fs)
  case Nil
  then show ?case by simp
next
  case (Cons f files)
  obtain c1 fs1 where p: "processHtmlFile conv fs f = (c1, fs1)" by (cases "processHtmlFile conv fs f")
  from Cons.prems(2) have f: "endsWith f ''.html''" by simp
  from Cons.prems(2,4) have g: "endsWith g ''.html''" by blast
  from processHtmlFile_config [of conv fs f] p
  have cfg: "assetsDir c1 = assetsDir conv" "supportedExtensions c1 = supportedExtensions conv"
    by simp_all
  then have std1: "standard_extensions c1" using Cons.prems(1) by (simp add: standard_extensions_def)
  from processHtmlFile_new_src [OF Cons.prems(1) f, of fs] p
  have "new_src fs1 conv = new_src fs conv" by simp
  moreover have "new_src fs1 c1 = new_src fs1 conv" using cfg by (rule new_src_config)
  ultimately have k: "new_src fs1 c1 = new_src fs conv" by simp
  show ?case
  proof (cases "g = f")
    case True
    with Cons.prems(3) have "g \<notin> set files" by simp
    moreover have "\<forall>f'\<in>set files. g \<noteq> f' @ ''.backup''"
      using backup_path_not_html [OF g] by blast
    ultimately have "map_of (snd (processAll c1 fs1 files)) g = map_of fs1 g"
      by (rule processAll_other)
    moreover from processHtmlFile_file_text [of fs f h conv] Cons.prems(5) True p
    have "map_of fs1 g = Some (File (fst (rewrite_html fs conv h)))" by simp
    ultimately show ?thesis using p by simp
  next
    case False
    with Cons.prems(4) have gin: "g \<in> set files" by simp
    have "g \<noteq> f @ ''.backup''" using backup_path_not_html [OF g] by blast
    from processHtmlFile_other [OF False this, of conv fs] p Cons.prems(5)
    have "map_of fs1 g = Some (File h)" by simp
    from Cons.IH [OF std1 _ _ gin this] Cons.prems(2,3)
    have "map_of (snd (processAll c1 fs1 files)) g = Some (File (fst (rewrite_html fs1 c1 h)))"
      by simp
    then show ?thesis using p by (simp add: rewrite_html_text k)
  qed
qed

lemma pass_text_state:
  "fst (js_replace tag (tag_callback fs tag) s (modified, conv)) =
     rewrite_text (new_src fs conv) tag s"
  using js_replace_callback [of tag fs s modified conv] by auto

text \<open>
  C7. A matched tag whose src is not a data URI and whose resolved path has an
  unsupported extension, or does not exist, or cannot be encoded, is returned by the
  callback as it was matched: the text of the tag is kept, the modified flag is not
  set, no file is recorded as processed, and the pass goes on with the text after the
  tag. For a path that does not exist the encoder returns no data and records nothing.
  The rest of the file and the other files are processed all the same. Each later pass
  gives the text it gives from a fresh state, whatever failed before it. A file in which
  nothing was replaced is left as it is, with no backup, and is not recorded as
  processed. And in a run that reaches the files, every HTML file found ends with the
  text the three passes make of its content, whatever failed in it or in the files
  before it (the files found being distinct, as the entries of a directory are, and
  the extensions those of the constructor).
\<close>

theorem soft_failure_keeps_tag:
  assumes m: "match_tag tag s = Some (beforeSrc, src, afterSrc, rest)"
    and nd: "\<not> startsWith src ''data:''"
    and fail: "toLowerCase (extname (resolveImagePath conv src)) \<notin> set (supportedExtensions conv) \<or>
               \<not> existsSync fs (resolveImagePath conv src) \<or>
               fst (imageToBase64 fs conv (resolveImagePath conv src)) = None"
  shows "(\<exists>m conv'. s = m @ rest \<and>
           tag_callback fs tag m beforeSrc src afterSrc (modified, conv) = (m, modified, conv') \<and>
           processedFiles conv' = processedFiles conv \<and>
           js_replace tag (tag_callback fs tag) s (modified, conv) =
             (m @ fst (js_replace tag (tag_callback fs tag) rest (modified, conv')),
              snd (js_replace tag (tag_callback fs tag) rest (modified, conv'))) \<and>
           (\<not> existsSync fs (resolveImagePath conv src) \<longrightarrow>
              imageToBase64 fs conv (resolveImagePath conv src) = (None, conv))) \<and>
         (\<forall>html. fst (rewrite_html fs conv html) =
            fst (js_replace ''source'' (tag_callback fs ''source'')
              (fst (js_replace ''video'' (tag_callback fs ''video'')
                (fst (js_replace ''img'' (tag_callback fs ''img'') html (False, conv)))
                (False, conv)))
              (False, conv))) \<and>
         (\<forall>f h. map_of fs f = Some (File h) \<and> \<not> fst (snd (rewrite_html fs conv h)) \<longrightarrow>
            snd (processHtmlFile conv fs f) = fs \<and>
            processedFiles (fst (processHtmlFile conv fs f)) = processedFiles conv) \<and>
         (standard_extensions conv \<and> distinct (findHtmlFiles conv fs) \<and>
          fst (run conv fs) = Summary \<longrightarrow>
            (\<forall>g\<in>set (findHtmlFiles conv fs). \<forall>h. map_of fs g = Some (File h) \<longrightarrow>
               map_of (snd (snd (run conv fs))) g = Some (File (fst (rewrite_html fs conv h)))))"
proof -
  let ?p = "resolveImagePath conv src"
  let ?m = "take (length s - length rest) s"
  have none: "new_src fs conv src = None"
  proof (cases "toLowerCase (extname ?p) \<in> set (supportedExtensions conv)")
    case False
    then show ?thesis by (simp add: new_src_def)
  next
    case True
    with fail have "data_uri fs ?p = None"
      using imageToBase64_data_uri_eq [of fs conv ?p]
      by (auto simp: data_uri_def existsSync_def)
    then show ?thesis by (simp add: new_src_def)
  qed
  from tag_callback_render [of fs tag ?m beforeSrc src afterSrc modified conv] none
  obtain es where cb: "tag_callback fs tag ?m beforeSrc src afterSrc (modified, conv) =
      (?m, modified, conv\<lparr>errors := errors conv @ es\<rparr>)" by auto
  let ?c = "conv\<lparr>errors := errors conv @ es\<rparr>"
  have split: "s = ?m @ rest" by (rule match_tag_split [OF m])
  have rep: "js_replace tag (tag_callback fs tag) s (modified, conv) =
             (?m @ fst (js_replace tag (tag_callback fs tag) rest (modified, ?c)),
              snd (js_replace tag (tag_callback fs tag) rest (modified, ?c)))"
    using js_replace_match [OF m, of "tag_callback fs tag" "(modified, conv)"] cb by simp
  have missing: "\<not> existsSync fs ?p \<longrightarrow> imageToBase64 fs conv ?p = (None, conv)"
    by (simp add: imageToBase64_def)
  have "processedFiles ?c = processedFiles conv" by simp
  with split cb rep missing have tag_kept: "\<exists>m conv'. s = m @ rest \<and>
           tag_callback fs tag m beforeSrc src afterSrc (modified, conv) = (m, modified, conv') \<and>
           processedFiles conv' = processedFiles conv \<and>
           js_replace tag (tag_callback fs tag) s (modified, conv) =
             (m @ fst (js_replace tag (tag_callback fs tag) rest (modified, conv')),
              snd (js_replace tag (tag_callback fs tag) rest (modified, conv'))) \<and>
           (\<not> existsSync fs (resolveImagePath conv src) \<longrightarrow>
              imageToBase64 fs conv (resolveImagePath conv src) = (None, conv))"
    by blast
  have passes: "fst (rewrite_html fs conv html) =
      fst (js_replace ''source'' (tag_callback fs ''source'')
        (fst (js_replace ''video'' (tag_callback fs ''video'')
          (fst (js_replace ''img'' (tag_callback fs ''img'') html (False, conv)))
          (False, conv)))
        (False, conv))" for html
    by (simp add: pass_text_state rewrite_html_text three_passes_def)
  have unmodified: "snd (processHtmlFile conv fs f) = fs \<and>
      processedFiles (fst (processHtmlFile conv fs f)) = processedFiles conv"
    if "map_of fs f = Some (File h)" "\<not> fst (snd (rewrite_html fs conv h))" for f h
    using that processHtmlFile_quiet [of fs f conv] by (simp add: rewrite_html_modified)
  have files: "map_of (snd (snd (run conv fs))) g = Some (File (fst (rewrite_html fs conv h)))"
    if "standard_extensions conv" "distinct (findHtmlFiles conv fs)" "fst (run conv fs) = Summary"
      "g \<in> set (findHtmlFiles conv fs)" "map_of fs g = Some (File h)" for g h
  proof -
    from that(3) run_cases [of conv fs]
    have "run conv fs = (Summary, processAll conv fs (findHtmlFiles conv fs))" by auto
    then have "snd (snd (run conv fs)) = snd (processAll conv fs (findHtmlFiles conv fs))" by simp
    moreover have "\<forall>f\<in>set (findHtmlFiles conv fs). endsWith f ''.html''"
      using findHtmlFiles_props by blast
    ultimately show ?thesis using processAll_each_file [OF that(1) _ that(2,4,5)] by simp
  qed
  from tag_kept passes unmodified files show ?thesis by blast
qed

definition fs_soft_failures :: filesystem where
  "fs_soft_failures =
     [(''/w/B64'', Dir), (''/w/assets'', Dir), (''/w/assets/a.png'', File ''abc''),
      (''/w/assets/dir.png'', Dir), (''/w/assets/notes.txt'', File ''x''),
      (''/w/B64/a.html'',
       File ''<img src=\"missing.png\"><img src=\"notes.txt\"><img src=\"dir.png\"><img src=\"a.png\"><video src=\"a.png\"></video>''),
      (''/w/B64/b.html'', File ''<source src=\"./assets/a.png\">'')]"

theorem soft_failure_keeps_tag_witness:
  "js_replace ''img'' (tag_callback fs_soft_failures ''img'')
     ''<img src=\"missing.png\"><img src=\"notes.txt\"><img src=\"dir.png\"><img src=\"a.png\"><video src=\"a.png\"></video>'' (False, new_converter ''/w/B64'') =
   (''<img src=\"missing.png\"><img src=\"notes.txt\"><img src=\"dir.png\"><img src=\"data:image/png;base64,YWJj\"><video src=\"a.png\"></video>'', True,
    (new_converter ''/w/B64'')\<lparr>errors := [(''/w/assets/dir.png'', EISDIR)]\<rparr>) \<and>
   map_of (snd (snd (run (new_converter ''/w/B64'') fs_soft_failures))) ''/w/B64/a.html'' =
     Some (File ''<img src=\"missing.png\"><img src=\"notes.txt\"><img src=\"dir.png\"><img src=\"data:image/png;base64,YWJj\"><video src=\"data:image/png;base64,YWJj\"></video>'') \<and>
   map_of (snd (snd (run (new_converter ''/w/B64'') fs_soft_failures))) ''/w/B64/b.html'' =
     Some (File ''<source src=\"data:image/png;base64,YWJj\">'') \<and>
   fst (snd (run (new_converter ''/w/B64'') fs_soft_failures)) =
     (new_converter ''/w/B64'')\<lparr>processedFiles := [''/w/B64/a.html'', ''/w/B64/b.html''],
        errors := [(''/w/assets/dir.png'', EISDIR)]\<rparr>"
proof -
  let ?c = "new_converter ''/w/B64''"
  let ?fs = fs_soft_failures
  let ?s = "''<img src=\"missing.png\"><img src=\"notes.txt\"><img src=\"dir.png\"><img src=\"a.png\"><video src=\"a.png\"></video>''"
  let ?rest = "''<img src=\"notes.txt\"><img src=\"dir.png\"><img src=\"a.png\"><video src=\"a.png\"></video>''"
  have m: "match_tag ''img'' ?s = Some ([], ''missing.png'', [], ?rest)"
    by code_simp
  have nd: "\<not> startsWith ''missing.png'' ''data:''"
    by code_simp
  have missing: "\<not> existsSync ?fs (resolveImagePath ?c ''missing.png'')"
    by code_simp
  then have fail: "toLowerCase (extname (resolveImagePath ?c ''missing.png'')) \<notin> set (supportedExtensions ?c) \<or>
      \<not> existsSync ?fs (resolveImagePath ?c ''missing.png'') \<or>
      fst (imageToBase64 ?fs ?c (resolveImagePath ?c ''missing.png'')) = None"
    by blast
  note t = soft_failure_keeps_tag [OF m nd fail, of False]
  from t obtain m' conv' where
    1: "?s = m' @ ?rest"
    and 2: "tag_callback ?fs ''img'' m' [] ''missing.png'' [] (False, ?c) = (m', False, conv')"
    and 3: "js_replace ''img'' (tag_callback ?fs ''img'') ?s (False, ?c) =
             (m' @ fst (js_replace ''img'' (tag_callback ?fs ''img'') ?rest (False, conv')),
              snd (js_replace ''img'' (tag_callback ?fs ''img'') ?rest (False, conv')))"
    by blast
  from 1 have m': "m' = ''<img src=\"missing.png\">''" by simp
  have "tag_callback ?fs ''img'' ''<img src=\"missing.png\">'' [] ''missing.png'' [] (False, ?c) =
      (''<img src=\"missing.png\">'', False, ?c)"
    by code_simp
  with 2 m' have c': "conv' = ?c" by simp
  have rest: "js_replace ''img'' (tag_callback ?fs ''img'') ?rest (False, ?c) =
      (''<img src=\"notes.txt\"><img src=\"dir.png\"><img src=\"data:image/png;base64,YWJj\"><video src=\"a.png\"></video>'', True, ?c\<lparr>errors := [(''/w/assets/dir.png'', EISDIR)]\<rparr>)"
    by code_simp
  have pass: "js_replace ''img'' (tag_callback ?fs ''img'') ?s (False, ?c) =
      (''<img src=\"missing.png\"><img src=\"notes.txt\"><img src=\"dir.png\"><img src=\"data:image/png;base64,YWJj\"><video src=\"a.png\"></video>'', True, ?c\<lparr>errors := [(''/w/assets/dir.png'', EISDIR)]\<rparr>)"
    unfolding 3 m' c' rest by simp
  have files: "findHtmlFiles ?c ?fs = [''/w/B64/a.html'', ''/w/B64/b.html'']" by code_simp
  have run: "fst (run ?c ?fs) = Summary \<and>
      fst (snd (run ?c ?fs)) =
        ?c\<lparr>processedFiles := [''/w/B64/a.html'', ''/w/B64/b.html''],
           errors := [(''/w/assets/dir.png'', EISDIR)]\<rparr>"
    by code_simp
  have content: "map_of ?fs ''/w/B64/a.html'' = Some (File ?s)"
    "map_of ?fs ''/w/B64/b.html'' = Some (File ''<source src=\"./assets/a.png\">'')"
    by (simp_all add: fs_soft_failures_def)
  have texts: "fst (rewrite_html ?fs ?c ?s) = ''<img src=\"missing.png\"><img src=\"notes.txt\"><img src=\"dir.png\"><img src=\"data:image/png;base64,YWJj\"><video src=\"data:image/png;base64,YWJj\"></video>''"
    "fst (rewrite_html ?fs ?c ''<source src=\"./assets/a.png\">'') = ''<source src=\"data:image/png;base64,YWJj\">''"
    by code_simp+
  from t new_converter_standard [of "''/w/B64''"] run
  have each: "\<forall>g\<in>set (findHtmlFiles ?c ?fs). \<forall>h. map_of ?fs g = Some (File h) \<longrightarrow>
      map_of (snd (snd (run ?c ?fs))) g = Some (File (fst (rewrite_html ?fs ?c h)))"
    unfolding files by simp
  from each content have "map_of (snd (snd (run ?c ?fs))) ''/w/B64/a.html'' =
      Some (File (fst (rewrite_html ?fs ?c ?s)))"
    "map_of (snd (snd (run ?c ?fs))) ''/w/B64/b.html'' =
      Some (File (fst (rewrite_html ?fs ?c ''<source src=\"./assets/a.png\">'')))"
    unfolding files by simp_all
  with texts pass run show ?thesis by simp
qed

section \<open>Tags with empty src values, wherever they stand\<close>

lemma match_tag_empty:
  assumes "match_tag tag s = Some r"
  shows "\<not> empty_values s"
proof
  assume e: "empty_values s"
  obtain b v a rest where "r = (b, v, a, rest)" by (cases r)
  with assms have m: "match_tag tag s = Some (b, v, a, rest)" by simp
  from match_tag_decomp [OF m] obtain t w kw q1 q2 where
    s: "s = t @ b @ w # kw @ q1 # v @ q2 # a @ CHR ''>'' # rest"
    and w: "js_whitespace w"
    and kw: "map canonicalize kw = map canonicalize ''src=''"
    and q: "is_quote q1"
    and v: "v \<noteq> []" "list_all (\<lambda>c. \<not> is_quote c) v"
    by blast
  let ?y = "v @ q2 # a @ CHR ''>'' # rest"
  from e s have "empty_values ((t @ b) @ (w # kw @ q1 # ?y))" by simp
  then have ev: "empty_values (w # kw @ q1 # ?y)" by (rule empty_values_suffix)
  have "match_literal ''src='' (kw @ q1 # ?y) = Some (q1 # ?y)"
    using kw by (rule match_literal_append)
  then have "src_candidate (w # kw @ q1 # ?y) = Some ?y"
    using w q by (simp add: src_candidate_def)
  with ev v(1) have "is_quote (hd v)" by (cases v) auto
  with v show False by (cases v) auto
qed

lemma js_replace_empty:
  "empty_values h \<Longrightarrow> js_replace tag f h st = (h, st)"
proof (induction h)
  case Nil
  show ?case by (simp add: js_replace_Nil)
next
  case (Cons c h)
  from Cons.prems have "match_tag tag (c # h) = None"
    using match_tag_empty [of tag "c # h"] by (cases "match_tag tag (c # h)") auto
  moreover from Cons.prems have "empty_values h" by simp
  ultimately show ?case using Cons.IH by (simp add: js_replace_no_match)
qed

lemma pass_empty_chunk:
  assumes "CHR ''>'' \<notin> set x" "empty_values (x @ ''>'')" "CHR ''>'' \<notin> set tag"
  shows "rewrite_text k tag (x @ CHR ''>'' # s) = x @ CHR ''>'' # rewrite_text k tag s \<and>
         substitutes k tag (x @ CHR ''>'' # s) = substitutes k tag s"
  using assms(1,2)
proof (induction x)
  case Nil
  have "match_tag tag (CHR ''>'' # s) = None"
    using match_tag_empty_values [of "[]" tag s] assms(3) by (simp add: src_candidate_def not_quote_gt)
  then show ?case by (simp add: rewrite_text_no_match substitutes_no_match)
next
  case (Cons c x)
  then have x: "CHR ''>'' \<notin> set x" "empty_values (x @ ''>'')" by simp_all
  have "match_tag tag (c # x @ CHR ''>'' # s) = None"
    using match_tag_empty_values [of "c # x" tag s] Cons.prems assms(3) by simp
  then have "rewrite_text k tag ((c # x) @ CHR ''>'' # s) = c # rewrite_text k tag (x @ CHR ''>'' # s)"
    and "substitutes k tag ((c # x) @ CHR ''>'' # s) = substitutes k tag (x @ CHR ''>'' # s)"
    by (simp_all add: rewrite_text_no_match substitutes_no_match)
  with Cons.IH [OF x] show ?case by simp
qed

text \<open>A text that is empty or ends in \<^verbatim>\<open>>\<close> and has closed src values is rewritten on its
  own, whatever follows it, and stays such a text.\<close>

lemma chunks_split:
  assumes "p \<noteq> []" "last p = CHR ''>''"
  shows "\<exists>x p2. p = x @ CHR ''>'' # p2 \<and> CHR ''>'' \<notin> set x \<and> (p2 = [] \<or> last p2 = CHR ''>'')"
proof -
  define x where "x = takeWhile (\<lambda>c. c \<noteq> CHR ''>'') p"
  define p2 where "p2 = tl (dropWhile (\<lambda>c. c \<noteq> CHR ''>'') p)"
  from assms have "CHR ''>'' \<in> set p" by (metis last_in_set)
  then have "dropWhile (\<lambda>c. c \<noteq> CHR ''>'') p \<noteq> []" by simp
  moreover from this have "hd (dropWhile (\<lambda>c. c \<noteq> CHR ''>'') p) = CHR ''>''"
    using hd_dropWhile [of "\<lambda>c. c \<noteq> CHR ''>''" p] by simp
  ultimately have "dropWhile (\<lambda>c. c \<noteq> CHR ''>'') p = CHR ''>'' # p2"
    unfolding p2_def by (metis list.collapse)
  then have p: "p = x @ CHR ''>'' # p2"
    unfolding x_def by (metis takeWhile_dropWhile_id)
  have x: "CHR ''>'' \<notin> set x" unfolding x_def by (auto dest: set_takeWhileD)
  have "p2 = [] \<or> last p2 = CHR ''>''" using assms(2) p by (cases "p2 = []") simp_all
  with p x show ?thesis by blast
qed

lemma pass_split:
  assumes tag: "CHR ''>'' \<notin> set tag"
  shows "closed_values p \<Longrightarrow> p = [] \<or> last p = CHR ''>'' \<Longrightarrow>
     rewrite_text k tag (p @ s) = rewrite_text k tag p @ rewrite_text k tag s \<and>
     substitutes k tag (p @ s) = (substitutes k tag p \<or> substitutes k tag s)"
proof (induction "length p" arbitrary: p rule: less_induct)
  case less
  show ?case
  proof (cases "p = []")
    case True
    then show ?thesis by simp
  next
    case False
    with less.prems(2) have "last p = CHR ''>''" by simp
    from chunks_split [OF False this] obtain x p2 where
      p: "p = x @ CHR ''>'' # p2" and x: "CHR ''>'' \<notin> set x"
      and p2: "p2 = [] \<or> last p2 = CHR ''>''" by blast
    from less.prems(1) closed_values_chunk [OF x, of p2] p
    have cx: "closed_body x" and c2: "closed_values p2" by simp_all
    have "length p2 < length p" using p by simp
    from less.hyps [OF this c2 p2]
    have IH: "rewrite_text k tag (p2 @ s) = rewrite_text k tag p2 @ rewrite_text k tag s"
      "substitutes k tag (p2 @ s) = (substitutes k tag p2 \<or> substitutes k tag s)" by simp_all
    from pass_chunk [OF x cx tag, of k "p2 @ s"] pass_chunk [OF x cx tag, of k p2] IH
    show ?thesis unfolding p by auto
  qed
qed

lemma pass_closed:
  assumes tag: "CHR ''>'' \<notin> set tag" and k: "good_values k"
  shows "closed_values p \<Longrightarrow> p = [] \<or> last p = CHR ''>'' \<Longrightarrow>
     closed_values (rewrite_text k tag p) \<and>
     (rewrite_text k tag p = [] \<or> last (rewrite_text k tag p) = CHR ''>'')"
proof (induction "length p" arbitrary: p rule: less_induct)
  case less
  show ?case
  proof (cases "p = []")
    case True
    then show ?thesis by simp
  next
    case False
    with less.prems(2) have "last p = CHR ''>''" by simp
    from chunks_split [OF False this] obtain x p2 where
      p: "p = x @ CHR ''>'' # p2" and x: "CHR ''>'' \<notin> set x"
      and p2: "p2 = [] \<or> last p2 = CHR ''>''" by blast
    from less.prems(1) closed_values_chunk [OF x, of p2] p
    have cx: "closed_body x" and c2: "closed_values p2" by simp_all
    have "length p2 < length p" using p by simp
    from less.hyps [OF this c2 p2]
    have IH: "closed_values (rewrite_text k tag p2)"
      "rewrite_text k tag p2 = [] \<or> last (rewrite_text k tag p2) = CHR ''>''" by simp_all
    from chunk_rewrite_props [OF x cx tag k]
    have y: "CHR ''>'' \<notin> set (chunk_rewrite k tag x)" "closed_body (chunk_rewrite k tag x)"
      by simp_all
    from pass_chunk [OF x cx tag, of k p2]
    have r: "rewrite_text k tag p = chunk_rewrite k tag x @ CHR ''>'' # rewrite_text k tag p2"
      unfolding p by simp
    have "closed_values (rewrite_text k tag p)"
      unfolding r using closed_values_chunk [OF y(1), of "rewrite_text k tag p2"] y(2) IH(1) by simp
    moreover have "last (rewrite_text k tag p) = CHR ''>''"
      unfolding r using IH(2) by auto
    ultimately show ?thesis by simp
  qed
qed

lemma three_passes_split:
  assumes k: "good_values k" and x: "CHR ''>'' \<notin> set x" and e: "empty_values (x @ ''>'')"
    and c: "closed_values p" and p: "p = [] \<or> last p = CHR ''>''"
  shows "three_passes k (p @ x @ CHR ''>'' # s) = three_passes k p @ x @ CHR ''>'' # three_passes k s"
    and "quiet k (p @ x @ CHR ''>'' # s) = (quiet k p \<and> quiet k s)"
proof -
  have tags: "CHR ''>'' \<notin> set ''img''" "CHR ''>'' \<notin> set ''video''" "CHR ''>'' \<notin> set ''source''"
    by simp_all
  have step: "rewrite_text k t (q @ x @ CHR ''>'' # y) =
        rewrite_text k t q @ x @ CHR ''>'' # rewrite_text k t y \<and>
      substitutes k t (q @ x @ CHR ''>'' # y) = (substitutes k t q \<or> substitutes k t y)"
    if "CHR ''>'' \<notin> set t" "closed_values q" "q = [] \<or> last q = CHR ''>''" for t q y
    using pass_split [OF that, of k "x @ CHR ''>'' # y"] pass_empty_chunk [OF x e that(1), of k y]
    by simp
  let ?p1 = "rewrite_text k ''img'' p"
  let ?p2 = "rewrite_text k ''video'' ?p1"
  from pass_closed [OF tags(1) k c p]
  have c1: "closed_values ?p1" "?p1 = [] \<or> last ?p1 = CHR ''>''" by simp_all
  from pass_closed [OF tags(2) k c1]
  have c2: "closed_values ?p2" "?p2 = [] \<or> last ?p2 = CHR ''>''" by simp_all
  show "three_passes k (p @ x @ CHR ''>'' # s) = three_passes k p @ x @ CHR ''>'' # three_passes k s"
    unfolding three_passes_def
    using step [OF tags(1) c p] step [OF tags(2) c1] step [OF tags(3) c2] by simp
  show "quiet k (p @ x @ CHR ''>'' # s) = (quiet k p \<and> quiet k s)"
    unfolding quiet_def
    using step [OF tags(1) c p, of s] step [OF tags(2) c p, of s] step [OF tags(3) c p, of s]
    by auto
qed

text \<open>
  C9 (as amended). Let \<open>x\<close> be the text of a tag up to its closing \<^verbatim>\<open>>\<close>, with no other
  \<^verbatim>\<open>>\<close> in it, in which every src candidate (white space, \<^verbatim>\<open>src=\<close>, a quote) is
  followed at once by a quote, so that every src value in the tag is empty, also one
  written inside another attribute's value. Then none of the three expressions matches
  at the tag, whatever follows it, and a replace with any callback copies the tag
  without calling the callback for it: no path is resolved and nothing is encoded.
  Where the tag stands at the start of the text, or after a text \<open>p\<close> that ends in
  \<^verbatim>\<open>>\<close> and whose src values are closed, the three passes leave the tag as it is, in its
  place between what they make of \<open>p\<close> and what they make of the rest, and the tag adds
  nothing to the modified flag. A file in which every src value is empty is left as it
  is, with no backup.
\<close>

theorem empty_src_not_matched:
  assumes "CHR ''>'' \<notin> set x" "empty_values (x @ ''>'')"
    and "closed_values p" "p = [] \<or> last p = CHR ''>''"
  shows "match_tag ''img'' (x @ ''>'' @ rest) = None \<and>
         match_tag ''video'' (x @ ''>'' @ rest) = None \<and>
         match_tag ''source'' (x @ ''>'' @ rest) = None \<and>
         (\<forall>tag f st. CHR ''>'' \<notin> set tag \<longrightarrow>
            js_replace tag f (x @ ''>'' @ rest) st =
              (x @ ''>'' @ fst (js_replace tag f rest st), snd (js_replace tag f rest st))) \<and>
         rewrite_html fs conv (x @ ''>'' @ rest) =
           (x @ ''>'' @ fst (rewrite_html fs conv rest), snd (rewrite_html fs conv rest)) \<and>
         fst (rewrite_html fs conv (p @ x @ ''>'' @ rest)) =
           fst (rewrite_html fs conv p) @ x @ ''>'' @ fst (rewrite_html fs conv rest) \<and>
         fst (snd (rewrite_html fs conv (p @ x @ ''>'' @ rest))) =
           (fst (snd (rewrite_html fs conv p)) \<or> fst (snd (rewrite_html fs conv rest))) \<and>
         (\<forall>h. empty_values h \<longrightarrow> rewrite_html fs conv h = (h, False, conv)) \<and>
         (\<forall>h. empty_values h \<and> map_of fs htmlFilePath = Some (File h) \<longrightarrow>
            processHtmlFile conv fs htmlFilePath = (conv, fs))"
proof -
  have tags: "CHR ''>'' \<notin> set ''img''" "CHR ''>'' \<notin> set ''video''" "CHR ''>'' \<notin> set ''source''"
    by simp_all
  note m = match_tag_empty_values [OF assms(1,2)]
  note r = js_replace_empty_values [OF assms(1,2)]
  have any: "js_replace tag f (x @ ''>'' @ rest) st =
      (x @ ''>'' @ fst (js_replace tag f rest st), snd (js_replace tag f rest st))"
    if "CHR ''>'' \<notin> set tag" for tag and f :: "string \<Rightarrow> string \<Rightarrow> string \<Rightarrow> string \<Rightarrow> 'st \<Rightarrow> string \<times> 'st" and st
    using r [OF that, of f rest st] by simp
  have rw: "rewrite_html fs conv (x @ ''>'' @ rest) =
           (x @ ''>'' @ fst (rewrite_html fs conv rest), snd (rewrite_html fs conv rest))"
    by (simp add: rewrite_html_def r [OF tags(1)] r [OF tags(2)] r [OF tags(3)] split: prod.splits)
  let ?k = "new_src fs conv"
  note sp = three_passes_split [OF new_src_good assms, of fs conv rest]
  have kept: "fst (rewrite_html fs conv (p @ x @ ''>'' @ rest)) =
           fst (rewrite_html fs conv p) @ x @ ''>'' @ fst (rewrite_html fs conv rest)"
    using sp(1) by (simp add: rewrite_html_text)
  have flag: "fst (snd (rewrite_html fs conv (p @ x @ ''>'' @ rest))) =
           (fst (snd (rewrite_html fs conv p)) \<or> fst (snd (rewrite_html fs conv rest)))"
    using sp(2) by (simp add: rewrite_html_modified)
  have whole: "rewrite_html fs conv h = (h, False, conv)" if "empty_values h" for h
    using that by (simp add: rewrite_html_def js_replace_empty)
  have untouched: "processHtmlFile conv fs htmlFilePath = (conv, fs)"
    if "empty_values h" "map_of fs htmlFilePath = Some (File h)" for h
    using that whole [of h] by (simp add: processHtmlFile_def readFileSync_def)
  from m [OF tags(1), of rest] m [OF tags(2), of rest] m [OF tags(3), of rest]
  have none: "match_tag ''img'' (x @ ''>'' @ rest) = None \<and>
         match_tag ''video'' (x @ ''>'' @ rest) = None \<and>
         match_tag ''source'' (x @ ''>'' @ rest) = None" by simp
  from none any rw kept flag whole untouched show ?thesis by blast
qed

definition fs_empty_src :: filesystem where
  "fs_empty_src = [(''/w/B64'', Dir), (''/w/assets'', Dir), (''/w/assets/a.png'', File ''abc''),
     (''/w/B64/index.html'', File ''<img class='a' src=\"\">'')]"

theorem empty_src_not_matched_witness:
  "match_tag ''img'' ''<img class='a' src=\"\"><img src=\"a.png\">'' = None \<and>
   fst (rewrite_html fs_empty_src (new_converter ''/w/B64'')
     ''<img src=\"a.png\"><img class='a' src=\"\"><img src=\"a.png\">'') =
     ''<img src=\"data:image/png;base64,YWJj\"><img class='a' src=\"\"><img src=\"data:image/png;base64,YWJj\">'' \<and>
   processHtmlFile (new_converter ''/w/B64'') fs_empty_src ''/w/B64/index.html'' =
     (new_converter ''/w/B64'', fs_empty_src)"
proof -
  let ?p = "''<img src=\"a.png\">''"
  let ?x = "''<img class='a' src=\"\"''"
  let ?rest = "''<img src=\"a.png\">''"
  let ?c = "new_converter ''/w/B64''"
  have 1: "CHR ''>'' \<notin> set ?x" by simp
  have 2: "empty_values (?x @ ''>'')" by code_simp
  have 3: "closed_values ?p" by code_simp
  have 4: "?p = [] \<or> last ?p = CHR ''>''" by simp
  have 5: "fst (rewrite_html fs_empty_src ?c ?rest) = ''<img src=\"data:image/png;base64,YWJj\">''"
    by code_simp
  have 6: "map_of fs_empty_src ''/w/B64/index.html'' = Some (File (?x @ ''>''))"
    by (simp add: fs_empty_src_def)
  note t = empty_src_not_matched [OF 1 2 3 4, of ?rest fs_empty_src ?c "''/w/B64/index.html''"]
  from t have "match_tag ''img'' (?x @ ''>'' @ ?rest) = None" by blast
  moreover from t have "fst (rewrite_html fs_empty_src ?c (?p @ ?x @ ''>'' @ ?rest)) =
      fst (rewrite_html fs_empty_src ?c ?p) @ ?x @ ''>'' @ fst (rewrite_html fs_empty_src ?c ?rest)"
    by blast
  moreover from t 2 6 have "processHtmlFile ?c fs_empty_src ''/w/B64/index.html'' = (?c, fs_empty_src)"
    by blast
  ultimately show ?thesis using 5 by simp
qed

text \<open>A tag with an empty src attribute and a src written inside its alt text. (The
  second text of the counterexample has a tag with an empty src behind a src value that
  is not closed.)\<close>

definition fs_src_in_alt :: filesystem where
  "fs_src_in_alt = [(''/w/B64'', Dir), (''/w/assets'', Dir), (''/w/assets/a.png'', File ''abc''),
     (''/w/B64/index.html'', File ''<img src=\"\" alt=' src=\"a.png\"'>'')]"

theorem empty_src_tag_matched:
  "match_tag ''img'' ''<img src=\"\" alt=' src=\"a.png\"'>'' =
     Some ('' src=\"\" alt='' @ [CHR 0x27], ''a.png'', [CHR 0x27], []) \<and>
   map_of (snd (snd (run (new_converter ''/w/B64'') fs_src_in_alt))) ''/w/B64/index.html'' =
     Some (File ''<img src=\"\" alt=' src=\"data:image/png;base64,YWJj\"'>'') \<and>
   map_of (snd (snd (run (new_converter ''/w/B64'') fs_src_in_alt))) ''/w/B64/index.html.backup'' =
     Some (File ''<img src=\"\" alt=' src=\"a.png\"'>'') \<and>
   empty_values ''<img a/../../a.png 'q' src=\"\">'' \<and>
   fst (rewrite_html fs_src_in_alt (new_converter ''/w/B64'')
     ''<img src=\"assets/d/<img a/../../a.png 'q' src=\"\">'') =
     ''<img src=\"data:image/png;base64,YWJj\"q' src=\"\">''"
  by code_simp

end
